theory Spec2Isabelle
  imports Main "HOL-Library.AList"
begin

section \<open>Python values\<close>

text \<open>
  Exceptions are values. \<open>SchedulingException\<close> is the class of scheduler.py,
  \<open>KeyError\<close> is what a failed dict subscript raises, \<open>Exception\<close> stands for
  any other instance of Python's \<open>Exception\<close>, and \<open>BaseException\<close> for an exception
  that is not an instance of \<open>Exception\<close> (KeyboardInterrupt, SystemExit), which the clause
  \<open>except Exception\<close> of task.py does not catch.
\<close>

datatype py_exception =
    SchedulingException string
  | KeyError string
  | ValueError string
  | RuntimeError string
  | Exception string
  | BaseException string

fun isinstance_Exception :: "py_exception \<Rightarrow> bool" where
  "isinstance_Exception (SchedulingException m) = True"
| "isinstance_Exception (KeyError m) = True"
| "isinstance_Exception (ValueError m) = True"
| "isinstance_Exception (RuntimeError m) = True"
| "isinstance_Exception (Exception m) = True"
| "isinstance_Exception (BaseException m) = False"

text \<open>
  The objects a task result can hold: \<open>None\<close> (the initial value, "unset"), a value
  returned by the user's \<open>execute\<close>, or a caught exception object.
\<close>

datatype py_object = PyNone | PyValue string | PyExceptionObject py_exception

text \<open>A call either returns a value or raises.\<close>

datatype 'a outcome = Returns 'a | Raises py_exception

section \<open>task.py\<close>

datatype TaskStatus = PENDING | SCHEDULED | RUNNING | FAILED | COMPLETED | CANCELED

text \<open>
  \<open>Task.__eq__\<close> and \<open>Task.__hash__\<close> use the task id alone, so sets of tasks and
  dicts keyed by tasks are sets and dicts of ids. A task object is referred to by its id,
  and the object store \<open>tasks\<close> below maps the id to the object's fields.
\<close>

type_synonym task_ref = string

text \<open>
  The callables that can sit in the three callback fields of a task: the three bound
  methods of the scheduler, or a callable supplied by other code (the tests install
  mocks), which is represented by what a call to it does: return, or raise the given
  exception.
\<close>

datatype callback =
    SchedulerCompleted
  | SchedulerFailed
  | SchedulerCanceled
  | UserCallable "py_exception option"

text \<open>
  The fields of \<open>Task.__init__\<close>, and the two methods a subclass supplies:
  \<open>execute\<close> (represented by its outcome) and \<open>tag\<close>.
\<close>

record task =
  task_status :: TaskStatus
  dependencies :: "task_ref list"
  task_result :: py_object
  canceled_event :: bool
  on_task_completed :: "callback option"
  on_task_canceled :: "callback option"
  on_task_failed :: "callback option"
  execute :: "py_object outcome"
  tag :: string

text \<open>
  The effects that the program has on its objects and on the condition variable are
  recorded, in order, in a trace.
\<close>

datatype hook_slot = OnCompleted | OnFailed | OnCanceled

datatype event =
    Status_set task_ref TaskStatus
  | Result_set task_ref py_object
  | Execute_called task_ref
  | Hook_fired hook_slot task_ref
  | Cancel_called task_ref
  | Notify_all
  | Wait_called

text \<open>
  The state: the task objects, the two dicts of the scheduler (Python dicts keep
  insertion order: association lists; Python sets: lists without repetition), and the
  trace.
\<close>

record world =
  tasks :: "task_ref \<Rightarrow> task"
  task_to_dependencies :: "(task_ref \<times> task_ref list) list"
  task_to_dependents :: "(task_ref \<times> task_ref list) list"
  trace :: "event list"

definition update_task :: "task_ref \<Rightarrow> (task \<Rightarrow> task) \<Rightarrow> world \<Rightarrow> world" where
  "update_task t f w = w\<lparr>tasks := (tasks w)(t := f (tasks w t))\<rparr>"

definition log_event :: "event \<Rightarrow> world \<Rightarrow> world" where
  "log_event e w = w\<lparr>trace := trace w @ [e]\<rparr>"

definition set_status :: "task_ref \<Rightarrow> TaskStatus \<Rightarrow> world \<Rightarrow> world" where
  "set_status t s w = log_event (Status_set t s) (update_task t (\<lambda>x. x\<lparr>task_status := s\<rparr>) w)"

definition set_result :: "task_ref \<Rightarrow> py_object \<Rightarrow> world \<Rightarrow> world" where
  "set_result t v w = log_event (Result_set t v) (update_task t (\<lambda>x. x\<lparr>task_result := v\<rparr>) w)"

text \<open>\<open>Task.cancel\<close>: sets the event.\<close>

definition cancel :: "task_ref \<Rightarrow> world \<Rightarrow> world" where
  "cancel t w = log_event (Cancel_called t) (update_task t (\<lambda>x. x\<lparr>canceled_event := True\<rparr>) w)"

text \<open>\<open>Task.mark_as_scheduled\<close>.\<close>

definition mark_as_scheduled :: "task_ref \<Rightarrow> world \<Rightarrow> world" where
  "mark_as_scheduled t w = set_status t SCHEDULED w"

definition register_on_task_completed :: "task_ref \<Rightarrow> callback \<Rightarrow> world \<Rightarrow> world" where
  "register_on_task_completed t c w = update_task t (\<lambda>x. x\<lparr>on_task_completed := Some c\<rparr>) w"

definition register_on_task_failed :: "task_ref \<Rightarrow> callback \<Rightarrow> world \<Rightarrow> world" where
  "register_on_task_failed t c w = update_task t (\<lambda>x. x\<lparr>on_task_failed := Some c\<rparr>) w"

definition register_on_task_canceled :: "task_ref \<Rightarrow> callback \<Rightarrow> world \<Rightarrow> world" where
  "register_on_task_canceled t c w = update_task t (\<lambda>x. x\<lparr>on_task_canceled := Some c\<rparr>) w"

section \<open>scheduler.py: the three callbacks\<close>

text \<open>
  \<open>self.__task_to_dependents[task]\<close> on a \<open>defaultdict(set)\<close>: a missing key is inserted
  with an empty set.
\<close>

definition dependents_of :: "task_ref \<Rightarrow> world \<Rightarrow> task_ref list \<times> world" where
  "dependents_of t w =
     (case map_of (task_to_dependents w) t of
        Some vs \<Rightarrow> (vs, w)
      | None \<Rightarrow> ([], w\<lparr>task_to_dependents := task_to_dependents w @ [(t, [])]\<rparr>))"

definition notify_all :: "world \<Rightarrow> world" where
  "notify_all w = log_event Notify_all w"

definition scheduler_on_task_completed :: "task_ref \<Rightarrow> world \<Rightarrow> world" where
  "scheduler_on_task_completed t w = notify_all w"

definition scheduler_on_task_failed :: "task_ref \<Rightarrow> world \<Rightarrow> world" where
  "scheduler_on_task_failed t w =
     (case dependents_of t w of (vs, w1) \<Rightarrow> notify_all (fold cancel vs w1))"

definition scheduler_on_task_canceled :: "task_ref \<Rightarrow> world \<Rightarrow> world" where
  "scheduler_on_task_canceled t w =
     (case dependents_of t w of (vs, w1) \<Rightarrow> notify_all (fold cancel vs w1))"

section \<open>task.py: execute_task\<close>

fun call_callback :: "callback \<Rightarrow> task_ref \<Rightarrow> world \<Rightarrow> unit outcome \<times> world" where
  "call_callback SchedulerCompleted t w = (Returns (), scheduler_on_task_completed t w)"
| "call_callback SchedulerFailed t w = (Returns (), scheduler_on_task_failed t w)"
| "call_callback SchedulerCanceled t w = (Returns (), scheduler_on_task_canceled t w)"
| "call_callback (UserCallable None) t w = (Returns (), w)"
| "call_callback (UserCallable (Some e)) t w = (Raises e, w)"

fun slot_callback :: "hook_slot \<Rightarrow> task \<Rightarrow> callback option" where
  "slot_callback OnCompleted x = on_task_completed x"
| "slot_callback OnFailed x = on_task_failed x"
| "slot_callback OnCanceled x = on_task_canceled x"

text \<open>\<open>if self.__on_task_X: self.__on_task_X(self)\<close>\<close>

definition fire :: "hook_slot \<Rightarrow> task_ref \<Rightarrow> world \<Rightarrow> unit outcome \<times> world" where
  "fire slot t w =
     (case slot_callback slot (tasks w t) of
        None \<Rightarrow> (Returns (), w)
      | Some c \<Rightarrow> call_callback c t (log_event (Hook_fired slot t) w))"

text \<open>
  The clause \<open>except Exception as exception\<close>: an exception that is not an instance of
  \<open>Exception\<close> is not caught.
\<close>

definition except_Exception :: "py_exception \<Rightarrow> task_ref \<Rightarrow> world \<Rightarrow> unit outcome \<times> world" where
  "except_Exception e t w =
     (if isinstance_Exception e then
        fire OnFailed t (set_status t FAILED (set_result t (PyExceptionObject e) w))
      else (Raises e, w))"

definition execute_task :: "task_ref \<Rightarrow> world \<Rightarrow> unit outcome \<times> world" where
  "execute_task t w =
     (if canceled_event (tasks w t) then
        fire OnCanceled t (set_status t CANCELED w)
      else
        (let w1 = log_event (Execute_called t) (set_status t RUNNING w) in
         case execute (tasks w1 t) of
           Raises e \<Rightarrow> except_Exception e t w1
         | Returns v \<Rightarrow>
             (case fire OnCompleted t (set_status t COMPLETED (set_result t v w1)) of
                (Raises e, w2) \<Rightarrow> except_Exception e t w2
              | (Returns u, w2) \<Rightarrow> (Returns (), w2))))"


text \<open>
  \<open>Task.__init__\<close>: a new task is PENDING, has no result, is not cancelled and has no
  callbacks; its dependencies are a frozenset.
\<close>

definition Task_init :: "task_ref list \<Rightarrow> py_object outcome \<Rightarrow> string \<Rightarrow> task" where
  "Task_init deps body tg =
     \<lparr>task_status = PENDING, dependencies = remdups deps, task_result = PyNone,
      canceled_event = False, on_task_completed = None, on_task_canceled = None,
      on_task_failed = None, execute = body, tag = tg\<rparr>"

section \<open>scheduler.py: schedule\<close>

text \<open>\<open>s.add(x)\<close> on a Python set.\<close>

definition set_add :: "'a \<Rightarrow> 'a list \<Rightarrow> 'a list" where
  "set_add x xs = (if x \<in> set xs then xs else xs @ [x])"

text \<open>\<open>self.__task_to_dependents[dependency].add(task)\<close>\<close>

definition add_dependent :: "task_ref \<Rightarrow> task_ref \<Rightarrow> world \<Rightarrow> world" where
  "add_dependent t d w =
     (case dependents_of d w of
        (vs, w1) \<Rightarrow>
          w1\<lparr>task_to_dependents := AList.update d (set_add t vs) (task_to_dependents w1)\<rparr>)"

text \<open>
  The message of the exception holds the repr of the task, which is abbreviated to its id
  here.
\<close>

definition schedule :: "task_ref \<Rightarrow> world \<Rightarrow> unit outcome \<times> world" where
  "schedule t w =
     (if t \<in> fst ` set (task_to_dependencies w) then
        (Raises (SchedulingException (''Task '' @ t @ '' already exists in the scheduler.'')), w)
      else
        (let w1 = register_on_task_completed t SchedulerCompleted w;
             w2 = register_on_task_failed t SchedulerFailed w1;
             w3 = register_on_task_canceled t SchedulerCanceled w2;
             ds = dependencies (tasks w3 t);
             w4 = w3\<lparr>task_to_dependencies :=
                       AList.update t (remdups ds) (task_to_dependencies w3)\<rparr>
         in (Returns (), fold (add_dependent t) ds w4)))"

text \<open>\<open>Scheduler.__init__\<close>: two empty dicts, then \<open>schedule\<close> for each given task.\<close>

fun schedule_all :: "task_ref list \<Rightarrow> world \<Rightarrow> unit outcome \<times> world" where
  "schedule_all [] w = (Returns (), w)"
| "schedule_all (t # ts) w =
     (case schedule t w of
        (Raises e, w1) \<Rightarrow> (Raises e, w1)
      | (Returns u, w1) \<Rightarrow> schedule_all ts w1)"

definition Scheduler_init :: "task_ref list \<Rightarrow> (task_ref \<Rightarrow> task) \<Rightarrow> unit outcome \<times> world" where
  "Scheduler_init ts objs =
     schedule_all ts
       \<lparr>tasks = objs, task_to_dependencies = [], task_to_dependents = [], trace = []\<rparr>"

section \<open>scheduler.py: the cycle check\<close>

text \<open>
  The inner loop of \<open>__has_cycles\<close>: \<open>out_degree[dependent] -= 1\<close>, which raises
  KeyError on a missing key, and the append to the queue when the count reaches zero.
\<close>

fun decrement_dependents ::
  "task_ref list \<Rightarrow> (task_ref \<times> int) list \<Rightarrow> task_ref list
     \<Rightarrow> ((task_ref \<times> int) list \<times> task_ref list) outcome" where
  "decrement_dependents [] od q = Returns (od, q)"
| "decrement_dependents (v # vs) od q =
     (case map_of od v of
        None \<Rightarrow> Raises (KeyError v)
      | Some d \<Rightarrow>
          decrement_dependents vs (AList.update v (d - 1) od)
            (if d - 1 = 0 then q @ [v] else q))"

definition positive_entries :: "(task_ref \<times> int) list \<Rightarrow> nat" where
  "positive_entries od = length (filter (\<lambda>kd. 0 < snd kd) od)"

lemma positive_entries_update:
  "map_of od v = Some d \<Longrightarrow>
     positive_entries (AList.update v (d - 1) od) + (if d - 1 = 0 then 1 else 0)
       = positive_entries od"
  by (induction od) (auto simp: positive_entries_def)

lemma decrement_dependents_measure:
  "decrement_dependents vs od q = Returns (od', q') \<Longrightarrow>
     length q' + positive_entries od' = length q + positive_entries od"
proof (induction vs arbitrary: od q)
  case Nil
  then show ?case by simp
next
  case (Cons v vs)
  from Cons.prems obtain d where d: "map_of od v = Some d"
    by (auto split: option.splits)
  with Cons.prems have
    "decrement_dependents vs (AList.update v (d - 1) od) (if d - 1 = 0 then q @ [v] else q)
       = Returns (od', q')"
    by simp
  from Cons.IH[OF this] positive_entries_update[OF d] show ?case
    by (auto split: if_splits)
qed

text \<open>The \<open>while ready_queue\<close> loop, counting the tasks it takes from the queue.\<close>

function kahn_loop ::
  "world \<Rightarrow> (task_ref \<times> int) list \<Rightarrow> task_ref list \<Rightarrow> nat \<Rightarrow> nat outcome \<times> world" where
  "kahn_loop w od [] c = (Returns c, w)"
| "kahn_loop w od (t # q) c =
     (case dependents_of t w of
        (vs, w1) \<Rightarrow>
          (case decrement_dependents vs od q of
             Raises e \<Rightarrow> (Raises e, w1)
           | Returns (od', q') \<Rightarrow> kahn_loop w1 od' q' (c + 1)))"
  by pat_completeness auto
termination
proof (relation "measure (\<lambda>(w, od, q, c). length q + positive_entries od)")
  show "wf (measure (\<lambda>(w, od, q, c). length q + positive_entries od))"
    by simp
next
  fix w :: world and od t q and c :: nat and x vs w1 x2 p od' q'
  assume "decrement_dependents vs od q = Returns p" and "(od', q') = p"
  then have "decrement_dependents vs od q = Returns (od', q')"
    by simp
  from decrement_dependents_measure[OF this]
  show "((w1, od', q', c + 1), (w, od, t # q, c))
          \<in> measure (\<lambda>(w, od, q, c). length q + positive_entries od)"
    by simp
qed

definition has_cycles :: "world \<Rightarrow> bool outcome \<times> world" where
  "has_cycles w =
     (let out_degree = map (\<lambda>(t, ds). (t, int (length ds))) (task_to_dependencies w);
          ready_queue = map fst (filter (\<lambda>(t, degree). degree = 0) out_degree)
      in case kahn_loop w out_degree ready_queue 0 of
           (Raises e, w1) \<Rightarrow> (Raises e, w1)
         | (Returns processed_count, w1) \<Rightarrow>
             (Returns (processed_count \<noteq> length (task_to_dependencies w1)), w1))"

section \<open>scheduler.py: the generator ready_tasks\<close>

definition is_terminal :: "TaskStatus \<Rightarrow> bool" where
  "is_terminal s = (s = COMPLETED \<or> s = FAILED \<or> s = CANCELED)"

definition has_pending_tasks :: "world \<Rightarrow> bool" where
  "has_pending_tasks w =
     list_ex (\<lambda>t. task_status (tasks w t) = PENDING) (map fst (task_to_dependencies w))"

text \<open>The scan that builds the list \<open>ready_tasks\<close> of one round.\<close>

definition is_ready :: "world \<Rightarrow> task_ref \<times> task_ref list \<Rightarrow> bool" where
  "is_ready w td =
     (task_status (tasks w (fst td)) = PENDING
      \<and> list_all (\<lambda>d. is_terminal (task_status (tasks w d))) (snd td))"

definition collect_ready :: "world \<Rightarrow> task_ref list" where
  "collect_ready w = map fst (filter (is_ready w) (task_to_dependencies w))"

text \<open>
  A generator object is suspended between two calls of \<open>next\<close>. It is \<open>Created\<close>
  before the first call, \<open>Suspended ts\<close> at the \<open>yield\<close> inside
  \<open>for task in ready_tasks\<close> with \<open>ts\<close> the tasks of the round not yet yielded,
  \<open>Waiting\<close> inside \<open>self.__condition.wait()\<close>, and \<open>Finished\<close> after it has
  returned or raised. A call of \<open>next\<close> yields a task, ends with StopIteration, raises,
  or blocks the calling thread in \<open>wait()\<close>; a blocked call goes on, once the condition
  is notified, with \<open>next_ready_tasks Waiting\<close>.
\<close>

datatype generator = Created | Suspended "task_ref list" | Waiting | Finished

datatype next_result = Yield task_ref | StopIteration | Raise py_exception | Block

text \<open>One pass of the body of \<open>while True\<close>, from its first line.\<close>

definition while_True :: "world \<Rightarrow> next_result \<times> generator \<times> world" where
  "while_True w =
     (if \<not> has_pending_tasks w then (StopIteration, Finished, w)
      else
        (case collect_ready w of
           [] \<Rightarrow> (Block, Waiting, log_event Wait_called w)
         | t # ts \<Rightarrow> (Yield t, Suspended ts, mark_as_scheduled t w)))"

fun next_ready_tasks :: "generator \<Rightarrow> world \<Rightarrow> next_result \<times> generator \<times> world" where
  "next_ready_tasks Created w =
     (case has_cycles w of
        (Raises e, w1) \<Rightarrow> (Raise e, Finished, w1)
      | (Returns True, w1) \<Rightarrow>
          (Raise (SchedulingException ''Dependency graph contains circular dependencies''),
           Finished, w1)
      | (Returns False, w1) \<Rightarrow> while_True w1)"
| "next_ready_tasks (Suspended (t # ts)) w = (Yield t, Suspended ts, mark_as_scheduled t w)"
| "next_ready_tasks (Suspended []) w = while_True w"
| "next_ready_tasks Waiting w = while_True w"
| "next_ready_tasks Finished w = (StopIteration, Finished, w)"

section \<open>executor.py\<close>

text \<open>
  What the executor uses of \<open>concurrent.futures.ThreadPoolExecutor\<close>: the constructor
  (which refuses \<open>max_workers <= 0\<close>), \<open>submit\<close> (which appends a work item, and raises
  after shutdown) and \<open>shutdown(wait)\<close>.
\<close>

record thread_pool =
  max_workers :: int
  thread_name_prefix :: string
  work_items :: "task_ref list"
  shutdown_wait :: "bool option"

definition ThreadPoolExecutor :: "int \<Rightarrow> string \<Rightarrow> thread_pool outcome" where
  "ThreadPoolExecutor n prefix =
     (if n \<le> 0 then Raises (ValueError ''max_workers must be greater than 0'')
      else Returns \<lparr>max_workers = n, thread_name_prefix = prefix, work_items = [],
                    shutdown_wait = None\<rparr>)"

definition pool_submit :: "task_ref \<Rightarrow> thread_pool \<Rightarrow> thread_pool outcome" where
  "pool_submit t p =
     (if shutdown_wait p \<noteq> None
      then Raises (RuntimeError ''cannot schedule new futures after shutdown'')
      else Returns (p\<lparr>work_items := work_items p @ [t]\<rparr>))"

definition pool_shutdown :: "bool \<Rightarrow> thread_pool \<Rightarrow> thread_pool" where
  "pool_shutdown wait p = p\<lparr>shutdown_wait := Some wait\<rparr>"

record executor =
  workers_per_tag :: int
  tag_to_thread_pool :: "(string \<times> thread_pool) list"

definition Executor_init :: "int \<Rightarrow> executor" where
  "Executor_init n = \<lparr>workers_per_tag = n, tag_to_thread_pool = []\<rparr>"

definition ensure_thread_pool :: "string \<Rightarrow> executor \<Rightarrow> unit outcome \<times> executor" where
  "ensure_thread_pool tg ex =
     (if tg \<in> fst ` set (tag_to_thread_pool ex) then (Returns (), ex)
      else
        (case ThreadPoolExecutor (workers_per_tag ex) tg of
           Raises e \<Rightarrow> (Raises e, ex)
         | Returns p \<Rightarrow>
             (Returns (), ex\<lparr>tag_to_thread_pool := tag_to_thread_pool ex @ [(tg, p)]\<rparr>)))"

text \<open>\<open>thread_pool.submit(task.execute_task)\<close> on the pool of the tag.\<close>

definition submit :: "string \<Rightarrow> task_ref \<Rightarrow> executor \<Rightarrow> unit outcome \<times> executor" where
  "submit tg t ex =
     (case map_of (tag_to_thread_pool ex) tg of
        None \<Rightarrow> (Raises (KeyError tg), ex)
      | Some p \<Rightarrow>
          (case pool_submit t p of
             Raises e \<Rightarrow> (Raises e, ex)
           | Returns p' \<Rightarrow>
               (Returns (), ex\<lparr>tag_to_thread_pool := AList.update tg p' (tag_to_thread_pool ex)\<rparr>)))"

definition shutdown :: "bool \<Rightarrow> executor \<Rightarrow> executor" where
  "shutdown wait ex =
     ex\<lparr>tag_to_thread_pool :=
          map (\<lambda>(tg, p). (tg, pool_shutdown wait p)) (tag_to_thread_pool ex)\<rparr>"

text \<open>
  \<open>Executor.run\<close>, one round of its \<open>for\<close> loop at a time: the call of \<open>next\<close> on the
  generator, and then either the loop body for the task it yields, or the
  \<open>finally\<close> clause when the generator ends or something raises. The thread that called
  \<open>run\<close> is \<open>Iterating\<close> with the generator in hand, \<open>Parked\<close> while the generator
  waits on the condition, and \<open>Left\<close> with the outcome of \<open>run\<close> at the end.
\<close>

datatype dispatcher = Iterating | Parked | Left "unit outcome"

definition run_round ::
  "executor \<Rightarrow> generator \<Rightarrow> world \<Rightarrow> dispatcher \<times> executor \<times> generator \<times> world" where
  "run_round ex g w =
     (case next_ready_tasks g w of
        (Yield t, g1, w1) \<Rightarrow>
          (case ensure_thread_pool (tag (tasks w1 t)) ex of
             (Raises e, ex1) \<Rightarrow> (Left (Raises e), shutdown True ex1, g1, w1)
           | (Returns u, ex1) \<Rightarrow>
               (case submit (tag (tasks w1 t)) t ex1 of
                  (Raises e, ex2) \<Rightarrow> (Left (Raises e), shutdown True ex2, g1, w1)
                | (Returns u', ex2) \<Rightarrow> (Iterating, ex2, g1, w1)))
      | (StopIteration, g1, w1) \<Rightarrow> (Left (Returns ()), shutdown True ex, g1, w1)
      | (Raise e, g1, w1) \<Rightarrow> (Left (Raises e), shutdown True ex, g1, w1)
      | (Block, g1, w1) \<Rightarrow> (Parked, ex, g1, w1))"


section \<open>Reading the trace\<close>

text \<open>The events that a call adds to the trace.\<close>

definition events_of :: "world \<Rightarrow> world \<Rightarrow> event list" where
  "events_of w w' = drop (length (trace w)) (trace w')"

fun is_Hook_fired :: "event \<Rightarrow> bool" where
  "is_Hook_fired (Hook_fired s t) = True"
| "is_Hook_fired e = False"

fun is_Cancel_or_Notify :: "event \<Rightarrow> bool" where
  "is_Cancel_or_Notify (Cancel_called t) = True"
| "is_Cancel_or_Notify Notify_all = True"
| "is_Cancel_or_Notify e = False"

text \<open>What a call of a callback adds to the trace, and what it raises.\<close>

fun callback_events :: "callback \<Rightarrow> task_ref \<Rightarrow> world \<Rightarrow> event list" where
  "callback_events SchedulerCompleted t w = [Notify_all]"
| "callback_events SchedulerFailed t w = map Cancel_called (fst (dependents_of t w)) @ [Notify_all]"
| "callback_events SchedulerCanceled t w = map Cancel_called (fst (dependents_of t w)) @ [Notify_all]"
| "callback_events (UserCallable r) t w = []"

definition fire_events :: "hook_slot \<Rightarrow> task_ref \<Rightarrow> world \<Rightarrow> event list" where
  "fire_events slot t w =
     (case slot_callback slot (tasks w t) of
        None \<Rightarrow> []
      | Some c \<Rightarrow> Hook_fired slot t # callback_events c t w)"

fun raised_by :: "callback option \<Rightarrow> py_exception option" where
  "raised_by (Some (UserCallable (Some e))) = Some e"
| "raised_by c = None"

section \<open>Example objects\<close>

text \<open>
  Three tasks in a chain, as in the tests: B depends on A, C on B; the \<open>execute\<close> of B
  raises.
\<close>

definition chain_tasks :: "task_ref \<Rightarrow> task" where
  "chain_tasks =
     (\<lambda>_. Task_init [] (Returns PyNone) ''default'')
       (''A'' := Task_init [] (Returns (PyValue ''a'')) ''io'',
        ''B'' := Task_init [''A''] (Raises (Exception ''Failed'')) ''cpu'',
        ''C'' := Task_init [''B''] (Returns (PyValue ''c'')) ''cpu'')"

definition chain_world :: world where
  "chain_world = snd (Scheduler_init [''A'', ''B'', ''C''] chain_tasks)"

text \<open>
  Three tasks in a cycle, as in the test of the cycle check (the dependencies of A are
  replaced before the tasks are scheduled), and the chain with only B scheduled.
\<close>

definition cyclic_tasks :: "task_ref \<Rightarrow> task" where
  "cyclic_tasks =
     (\<lambda>_. Task_init [] (Returns PyNone) ''default'')
       (''A'' := Task_init [''C''] (Returns (PyValue ''a'')) ''default'',
        ''B'' := Task_init [''A''] (Returns (PyValue ''b'')) ''default'',
        ''C'' := Task_init [''B''] (Returns (PyValue ''c'')) ''default'')"

definition cyclic_world :: world where
  "cyclic_world = snd (Scheduler_init [''A'', ''B'', ''C''] cyclic_tasks)"

definition orphan_world :: world where
  "orphan_world = snd (Scheduler_init [''B''] chain_tasks)"

text \<open>A task with a cancelled flag whose canceled callback raises.\<close>

definition raising_hook_world :: world where
  "raising_hook_world =
     \<lparr>tasks = (\<lambda>_. Task_init [] (Returns PyNone) ''default'')
        (''A'' := (Task_init [] (Returns (PyValue ''a'')) ''default'')
                    \<lparr>canceled_event := True,
                     on_task_canceled := Some (UserCallable (Some (Exception ''hook'')))\<rparr>),
      task_to_dependencies = [], task_to_dependents = [], trace = []\<rparr>"

section \<open>Reading the graph\<close>

text \<open>
  The value of \<open>self.__task_to_dependents[t]\<close> (empty for a missing key), and the keys
  of \<open>self.__task_to_dependencies\<close>: the registered tasks.
\<close>

definition dependents :: "world \<Rightarrow> task_ref \<Rightarrow> task_ref list" where
  "dependents w t = (case map_of (task_to_dependents w) t of None \<Rightarrow> [] | Some vs \<Rightarrow> vs)"

definition registered :: "world \<Rightarrow> task_ref set" where
  "registered w = fst ` set (task_to_dependencies w)"

definition unscheduled_chain :: world where
  "unscheduled_chain =
     \<lparr>tasks = chain_tasks, task_to_dependencies = [], task_to_dependents = [], trace = []\<rparr>"

text \<open>The value of \<open>self.__task_to_dependencies[t]\<close>.\<close>

definition prerequisites :: "world \<Rightarrow> task_ref \<Rightarrow> task_ref list" where
  "prerequisites w t = (case map_of (task_to_dependencies w) t of None \<Rightarrow> [] | Some ds \<Rightarrow> ds)"

text \<open>
  The tasks that a suspended generator still holds in its list \<open>ready_tasks\<close> are
  distinct and would be collected by a scan now: PENDING with all dependencies terminal,
  as they were when the scan of this round collected them.
\<close>

fun batch_ready :: "generator \<Rightarrow> world \<Rightarrow> bool" where
  "batch_ready (Suspended ts) w = (distinct ts \<and> set ts \<subseteq> set (collect_ready w))"
| "batch_ready g w = True"

text \<open>
  The next call of \<open>next\<close> reaches the first line of \<open>while True\<close>: a new generator
  whose cycle check passes, a generator suspended at the last task of its round, or one
  that is waiting.
\<close>

definition evaluates_loop_condition :: "generator \<Rightarrow> world \<Rightarrow> bool" where
  "evaluates_loop_condition g w =
     (case g of
        Created \<Rightarrow> fst (has_cycles w) = Returns False
      | Suspended ts \<Rightarrow> ts = []
      | Waiting \<Rightarrow> True
      | Finished \<Rightarrow> False)"

text \<open>
  What \<open>schedule\<close> maintains of the two dicts: the keys of the dependencies dict are
  unique, the sets have no repetition, and a task stands among the dependents of \<open>p\<close>
  only if it is registered and has \<open>p\<close> among its dependencies.
\<close>

definition graph_ok :: "world \<Rightarrow> bool" where
  "graph_ok w \<longleftrightarrow>
     distinct (map fst (task_to_dependencies w))
     \<and> (\<forall>t. distinct (prerequisites w t))
     \<and> (\<forall>p. distinct (dependents w p)
            \<and> (\<forall>v\<in>set (dependents w p). v \<in> registered w \<and> p \<in> set (prerequisites w v)))"

text \<open>
  A set of registered tasks each of which has a dependency in the set or outside the
  registered tasks: no task of such a set is ever taken from the queue of the cycle check.
\<close>

definition stuck :: "world \<Rightarrow> task_ref set \<Rightarrow> bool" where
  "stuck w S \<longleftrightarrow>
     S \<subseteq> registered w
     \<and> (\<forall>u\<in>S. \<exists>p\<in>set (prerequisites w u). p \<in> S \<or> p \<notin> registered w)"

text \<open>
  The invariant of the \<open>while ready_queue\<close> loop, with \<open>P\<close> the set of tasks taken
  from the queue so far.
\<close>

definition kahn_inv ::
  "world \<Rightarrow> task_ref set \<Rightarrow> (task_ref \<times> int) list \<Rightarrow> task_ref list \<Rightarrow> task_ref set \<Rightarrow> bool" where
  "kahn_inv w S od q P \<longleftrightarrow>
     finite P \<and> distinct q \<and> set q \<inter> P = {} \<and> set q \<union> P \<subseteq> registered w - S
     \<and> (\<forall>v\<in>registered w. \<exists>d. map_of od v = Some d
            \<and> int (card (set (prerequisites w v) - P)) \<le> d)
     \<and> (\<forall>v\<in>set q \<union> P. \<exists>d. map_of od v = Some d \<and> d \<le> 0)"

text \<open>The dict \<open>out_degree\<close> and the queue before the loop, and the count after it.\<close>

definition initial_out_degree :: "world \<Rightarrow> (task_ref \<times> int) list" where
  "initial_out_degree w = map (\<lambda>(t, ds). (t, int (length ds))) (task_to_dependencies w)"

definition initial_ready_queue :: "world \<Rightarrow> task_ref list" where
  "initial_ready_queue w = map fst (filter (\<lambda>(t, degree). degree = 0) (initial_out_degree w))"

definition processed_count :: "world \<Rightarrow> nat outcome" where
  "processed_count w = fst (kahn_loop w (initial_out_degree w) (initial_ready_queue w) 0)"

text \<open>
  A dependency cycle: a non-empty list of registered tasks in which each task has the
  next one among its dependencies, and the last task has the first.
\<close>

fun dependency_path :: "world \<Rightarrow> task_ref list \<Rightarrow> bool" where
  "dependency_path w (u # v # us) =
     (u \<in> registered w \<and> v \<in> set (prerequisites w u) \<and> dependency_path w (v # us))"
| "dependency_path w us = True"

definition dependency_cycle :: "world \<Rightarrow> task_ref list \<Rightarrow> bool" where
  "dependency_cycle w us \<longleftrightarrow> us \<noteq> [] \<and> dependency_path w (us @ [hd us])"

text \<open>The exception that \<open>ready_tasks\<close> raises when \<open>__has_cycles\<close> returns True.\<close>

definition circular :: py_exception where
  "circular = SchedulingException ''Dependency graph contains circular dependencies''"

section \<open>Frame lemmas\<close>

lemma log_event_simps [simp]:
  "tasks (log_event e w) = tasks w"
  "task_to_dependencies (log_event e w) = task_to_dependencies w"
  "task_to_dependents (log_event e w) = task_to_dependents w"
  "trace (log_event e w) = trace w @ [e]"
  by (simp_all add: log_event_def)

lemma update_task_simps [simp]:
  "tasks (update_task t f w) = (tasks w)(t := f (tasks w t))"
  "task_to_dependencies (update_task t f w) = task_to_dependencies w"
  "task_to_dependents (update_task t f w) = task_to_dependents w"
  "trace (update_task t f w) = trace w"
  by (simp_all add: update_task_def)

lemma set_status_simps [simp]:
  "tasks (set_status t s w) = (tasks w)(t := (tasks w t)\<lparr>task_status := s\<rparr>)"
  "task_to_dependencies (set_status t s w) = task_to_dependencies w"
  "task_to_dependents (set_status t s w) = task_to_dependents w"
  "trace (set_status t s w) = trace w @ [Status_set t s]"
  by (simp_all add: set_status_def)

lemma set_result_simps [simp]:
  "tasks (set_result t v w) = (tasks w)(t := (tasks w t)\<lparr>task_result := v\<rparr>)"
  "task_to_dependencies (set_result t v w) = task_to_dependencies w"
  "task_to_dependents (set_result t v w) = task_to_dependents w"
  "trace (set_result t v w) = trace w @ [Result_set t v]"
  by (simp_all add: set_result_def)

lemma cancel_simps [simp]:
  "tasks (cancel v w) = (tasks w)(v := (tasks w v)\<lparr>canceled_event := True\<rparr>)"
  "task_to_dependencies (cancel v w) = task_to_dependencies w"
  "task_to_dependents (cancel v w) = task_to_dependents w"
  "trace (cancel v w) = trace w @ [Cancel_called v]"
  by (simp_all add: cancel_def)

lemma fold_cancel_graph [simp]:
  "task_to_dependencies (fold cancel vs w) = task_to_dependencies w"
  "task_to_dependents (fold cancel vs w) = task_to_dependents w"
  by (induction vs arbitrary: w) simp_all

lemma fold_cancel_trace [simp]:
  "trace (fold cancel vs w) = trace w @ map Cancel_called vs"
  by (induction vs arbitrary: w) simp_all

lemma fold_cancel_tasks:
  "tasks (fold cancel vs w) u =
     (if u \<in> set vs then (tasks w u)\<lparr>canceled_event := True\<rparr> else tasks w u)"
  by (induction vs arbitrary: w) auto

lemma fold_cancel_fields [simp]:
  "task_status (tasks (fold cancel vs w) u) = task_status (tasks w u)"
  "task_result (tasks (fold cancel vs w) u) = task_result (tasks w u)"
  "dependencies (tasks (fold cancel vs w) u) = dependencies (tasks w u)"
  "on_task_completed (tasks (fold cancel vs w) u) = on_task_completed (tasks w u)"
  "on_task_failed (tasks (fold cancel vs w) u) = on_task_failed (tasks w u)"
  "on_task_canceled (tasks (fold cancel vs w) u) = on_task_canceled (tasks w u)"
  "execute (tasks (fold cancel vs w) u) = execute (tasks w u)"
  "tag (tasks (fold cancel vs w) u) = tag (tasks w u)"
  "canceled_event (tasks (fold cancel vs w) u) = (u \<in> set vs \<or> canceled_event (tasks w u))"
  by (simp_all add: fold_cancel_tasks)

lemma dependents_of_simps [simp]:
  "tasks (snd (dependents_of t w)) = tasks w"
  "task_to_dependencies (snd (dependents_of t w)) = task_to_dependencies w"
  "trace (snd (dependents_of t w)) = trace w"
  by (simp_all add: dependents_of_def split: option.splits)

lemma dependents_of_log_event [simp]:
  "fst (dependents_of t (log_event e w)) = fst (dependents_of t w)"
  by (simp add: dependents_of_def split: option.splits)

lemma callback_events_log_event [simp]:
  "callback_events c t (log_event e w) = callback_events c t w"
  by (cases c) simp_all

lemma callback_events_kind: "e \<in> set (callback_events c t w) \<Longrightarrow> is_Cancel_or_Notify e"
  by (cases c) auto

lemma filter_hook_callback_events [simp]: "filter is_Hook_fired (callback_events c t w) = []"
  by (cases c) (simp_all add: filter_empty_conv)

lemmas scheduler_callback_defs =
  scheduler_on_task_completed_def scheduler_on_task_failed_def scheduler_on_task_canceled_def
  notify_all_def case_prod_beta

lemma callback_cases:
  obtains e where "c = UserCallable (Some e)" | "c = UserCallable None"
    | "c = SchedulerCompleted" | "c = SchedulerFailed" | "c = SchedulerCanceled"
proof (cases c)
  case (UserCallable r)
  then show ?thesis using that by (cases r) auto
qed (use that in auto)

lemma call_callback_trace:
  "trace (snd (call_callback c t w)) = trace w @ callback_events c t w"
  by (rule callback_cases[of c]) (simp_all add: scheduler_callback_defs)

lemma call_callback_outcome:
  "fst (call_callback c t w) = (case raised_by (Some c) of None \<Rightarrow> Returns () | Some e \<Rightarrow> Raises e)"
  by (rule callback_cases[of c]) simp_all

lemma call_callback_task:
  "tasks (snd (call_callback c t w)) u = tasks w u
   \<or> tasks (snd (call_callback c t w)) u = (tasks w u)\<lparr>canceled_event := True\<rparr>"
  by (rule callback_cases[of c]) (simp_all add: scheduler_callback_defs fold_cancel_tasks)

lemma call_callback_fields [simp]:
  "task_status (tasks (snd (call_callback c t w)) u) = task_status (tasks w u)"
  "task_result (tasks (snd (call_callback c t w)) u) = task_result (tasks w u)"
  "dependencies (tasks (snd (call_callback c t w)) u) = dependencies (tasks w u)"
  "on_task_completed (tasks (snd (call_callback c t w)) u) = on_task_completed (tasks w u)"
  "on_task_failed (tasks (snd (call_callback c t w)) u) = on_task_failed (tasks w u)"
  "on_task_canceled (tasks (snd (call_callback c t w)) u) = on_task_canceled (tasks w u)"
  "execute (tasks (snd (call_callback c t w)) u) = execute (tasks w u)"
  "tag (tasks (snd (call_callback c t w)) u) = tag (tasks w u)"
  using call_callback_task[of c t w u] by auto

lemma call_callback_dependencies [simp]:
  "task_to_dependencies (snd (call_callback c t w)) = task_to_dependencies w"
  by (rule callback_cases[of c]) (simp_all add: scheduler_callback_defs)

lemma fire_trace: "trace (snd (fire slot t w)) = trace w @ fire_events slot t w"
  by (simp add: fire_def fire_events_def call_callback_trace split: option.splits)

lemma fire_outcome:
  "fst (fire slot t w) =
     (case raised_by (slot_callback slot (tasks w t)) of None \<Rightarrow> Returns () | Some e \<Rightarrow> Raises e)"
  by (simp add: fire_def call_callback_outcome split: option.splits)

lemma fire_fields [simp]:
  "task_status (tasks (snd (fire slot t w)) u) = task_status (tasks w u)"
  "task_result (tasks (snd (fire slot t w)) u) = task_result (tasks w u)"
  "dependencies (tasks (snd (fire slot t w)) u) = dependencies (tasks w u)"
  "on_task_completed (tasks (snd (fire slot t w)) u) = on_task_completed (tasks w u)"
  "on_task_failed (tasks (snd (fire slot t w)) u) = on_task_failed (tasks w u)"
  "on_task_canceled (tasks (snd (fire slot t w)) u) = on_task_canceled (tasks w u)"
  "execute (tasks (snd (fire slot t w)) u) = execute (tasks w u)"
  "tag (tasks (snd (fire slot t w)) u) = tag (tasks w u)"
  "task_to_dependencies (snd (fire slot t w)) = task_to_dependencies w"
  by (simp_all add: fire_def split: option.splits)

lemma fire_events_kind:
  "e \<in> set (fire_events slot t w) \<Longrightarrow> e = Hook_fired slot t \<or> is_Cancel_or_Notify e"
  by (auto simp: fire_events_def split: option.splits dest: callback_events_kind)

lemma filter_hook_fire_events:
  "filter is_Hook_fired (fire_events slot t w) =
     (case slot_callback slot (tasks w t) of None \<Rightarrow> [] | Some c \<Rightarrow> [Hook_fired slot t])"
  by (simp add: fire_events_def split: option.splits)

section \<open>The three paths of execute_task\<close>

lemma try_Returns:
  "fst X = Returns u \<Longrightarrow>
     (case X of (Raises e, w3) \<Rightarrow> A e w3 | (Returns u, w3) \<Rightarrow> B w3) = B (snd X)"
  by (cases X) auto

lemma try_Raises:
  "fst X = Raises e \<Longrightarrow>
     (case X of (Raises e, w3) \<Rightarrow> A e w3 | (Returns u, w3) \<Rightarrow> B w3) = A e (snd X)"
  by (cases X) auto

lemma execute_task_canceled:
  "canceled_event (tasks w t) \<Longrightarrow>
     execute_task t w = fire OnCanceled t (set_status t CANCELED w)"
  by (simp add: execute_task_def)

lemma execute_task_raised:
  assumes "\<not> canceled_event (tasks w t)" "execute (tasks w t) = Raises e" "isinstance_Exception e"
  shows "execute_task t w =
           fire OnFailed t
             (set_status t FAILED (set_result t (PyExceptionObject e)
               (log_event (Execute_called t) (set_status t RUNNING w))))"
  using assms by (simp add: execute_task_def Let_def except_Exception_def)

lemma execute_task_not_caught:
  assumes "\<not> canceled_event (tasks w t)" "execute (tasks w t) = Raises e" "\<not> isinstance_Exception e"
  shows "execute_task t w = (Raises e, log_event (Execute_called t) (set_status t RUNNING w))"
  using assms by (simp add: execute_task_def Let_def except_Exception_def)

lemma execute_task_returned:
  assumes "\<not> canceled_event (tasks w t)" "execute (tasks w t) = Returns v"
  shows "execute_task t w =
          (case fire OnCompleted t
                  (set_status t COMPLETED (set_result t v
                    (log_event (Execute_called t) (set_status t RUNNING w)))) of
             (Raises e, w2) \<Rightarrow> except_Exception e t w2
           | (Returns u, w2) \<Rightarrow> (Returns (), w2))"
  using assms by (simp add: execute_task_def Let_def)

lemma execute_task_returned_hook_returns:
  assumes "\<not> canceled_event (tasks w t)" "execute (tasks w t) = Returns v"
      and "raised_by (on_task_completed (tasks w t)) = None"
  shows "execute_task t w =
          (Returns (),
           snd (fire OnCompleted t
                  (set_status t COMPLETED (set_result t v
                    (log_event (Execute_called t) (set_status t RUNNING w))))))"
proof -
  have "fst (fire OnCompleted t
                  (set_status t COMPLETED (set_result t v
                    (log_event (Execute_called t) (set_status t RUNNING w))))) = Returns ()"
    using assms(3) by (simp add: fire_outcome)
  then show ?thesis
    unfolding execute_task_returned[OF assms(1,2)] by (rule try_Returns)
qed

lemma execute_task_returned_trace:
  assumes "\<not> canceled_event (tasks w t)" "execute (tasks w t) = Returns v"
  shows "\<exists>rest. events_of w (snd (execute_task t w)) =
           [Status_set t RUNNING, Execute_called t, Result_set t v, Status_set t COMPLETED]
             @ (case on_task_completed (tasks w t) of None \<Rightarrow> []
                | Some c \<Rightarrow> [Hook_fired OnCompleted t]) @ rest"
proof -
  let ?w2 = "set_status t COMPLETED (set_result t v
               (log_event (Execute_called t) (set_status t RUNNING w)))"
  let ?f = "fire OnCompleted t ?w2"
  note et = execute_task_returned[OF assms]
  have fe: "\<exists>r. fire_events OnCompleted t ?w2 =
              (case on_task_completed (tasks w t) of None \<Rightarrow> []
               | Some c \<Rightarrow> [Hook_fired OnCompleted t]) @ r"
    by (simp add: fire_events_def split: option.splits)
  have "\<exists>rest. trace (snd (execute_task t w)) = trace ?w2 @ fire_events OnCompleted t ?w2 @ rest"
  proof (cases "fst ?f")
    case (Returns u)
    then have "execute_task t w = (Returns (), snd ?f)"
      unfolding et by (rule try_Returns)
    then show ?thesis by (simp add: fire_trace)
  next
    case (Raises e)
    then have e1: "execute_task t w = except_Exception e t (snd ?f)"
      unfolding et by (rule try_Raises)
    show ?thesis
      by (cases "isinstance_Exception e") (simp_all add: e1 except_Exception_def fire_trace)
  qed
  with fe show ?thesis
    by (auto simp: events_of_def)
qed


section \<open>The example objects, evaluated\<close>

lemma chain_world_graph:
  "task_to_dependencies chain_world = [(''A'', []), (''B'', [''A'']), (''C'', [''B''])]"
  "task_to_dependents chain_world = [(''A'', [''B'']), (''B'', [''C''])]"
  by (simp_all add: chain_world_def Scheduler_init_def schedule_def chain_tasks_def Task_init_def
        register_on_task_completed_def register_on_task_failed_def register_on_task_canceled_def
        add_dependent_def dependents_of_def set_add_def Let_def)

lemma chain_world_tasks:
  "tasks chain_world ''A'' = (Task_init [] (Returns (PyValue ''a'')) ''io'')
      \<lparr>on_task_completed := Some SchedulerCompleted, on_task_canceled := Some SchedulerCanceled,
       on_task_failed := Some SchedulerFailed\<rparr>"
  "tasks chain_world ''B'' = (Task_init [''A''] (Raises (Exception ''Failed'')) ''cpu'')
      \<lparr>on_task_completed := Some SchedulerCompleted, on_task_canceled := Some SchedulerCanceled,
       on_task_failed := Some SchedulerFailed\<rparr>"
  "tasks chain_world ''C'' = (Task_init [''B''] (Returns (PyValue ''c'')) ''cpu'')
      \<lparr>on_task_completed := Some SchedulerCompleted, on_task_canceled := Some SchedulerCanceled,
       on_task_failed := Some SchedulerFailed\<rparr>"
  by (simp_all add: chain_world_def Scheduler_init_def schedule_def chain_tasks_def Task_init_def
        register_on_task_completed_def register_on_task_failed_def register_on_task_canceled_def
        add_dependent_def dependents_of_def set_add_def Let_def)

lemma chain_world_trace: "trace chain_world = []"
  by (simp_all add: chain_world_def Scheduler_init_def schedule_def chain_tasks_def Task_init_def
        register_on_task_completed_def register_on_task_failed_def register_on_task_canceled_def
        add_dependent_def dependents_of_def set_add_def Let_def)


section \<open>Claims about execute_task\<close>

text \<open>
  Claim C3. When the cancel flag of a task is set at the moment \<open>execute_task\<close> starts,
  the call leaves the task CANCELED, fires the canceled callback (when one is installed)
  and no other callback, does not call \<open>execute\<close>, and does not write the result, which
  keeps the value it had (None for a task that has not run).
\<close>

theorem C3_cancelled_before_start:
  assumes "canceled_event (tasks w t)"
  shows "task_status (tasks (snd (execute_task t w)) t) = CANCELED
       \<and> task_result (tasks (snd (execute_task t w)) t) = task_result (tasks w t)
       \<and> filter is_Hook_fired (events_of w (snd (execute_task t w))) =
           (case on_task_canceled (tasks w t) of None \<Rightarrow> [] | Some c \<Rightarrow> [Hook_fired OnCanceled t])
       \<and> Hook_fired OnCompleted t \<notin> set (events_of w (snd (execute_task t w)))
       \<and> Hook_fired OnFailed t \<notin> set (events_of w (snd (execute_task t w)))
       \<and> Execute_called t \<notin> set (events_of w (snd (execute_task t w)))
       \<and> (\<forall>v. Result_set t v \<notin> set (events_of w (snd (execute_task t w))))"
proof -
  let ?w1 = "set_status t CANCELED w"
  note ex = execute_task_canceled[OF assms]
  have tr: "events_of w (snd (execute_task t w)) = Status_set t CANCELED # fire_events OnCanceled t ?w1"
    by (simp add: ex fire_trace events_of_def)
  have kinds: "\<And>e. e \<in> set (fire_events OnCanceled t ?w1) \<Longrightarrow> e = Hook_fired OnCanceled t \<or> is_Cancel_or_Notify e"
    by (rule fire_events_kind)
  have 1: "task_status (tasks (snd (execute_task t w)) t) = CANCELED" by (simp add: ex)
  have 2: "task_result (tasks (snd (execute_task t w)) t) = task_result (tasks w t)" by (simp add: ex)
  have 3: "filter is_Hook_fired (events_of w (snd (execute_task t w))) =
           (case on_task_canceled (tasks w t) of None \<Rightarrow> [] | Some c \<Rightarrow> [Hook_fired OnCanceled t])"
    by (simp add: tr filter_hook_fire_events)
  have 4: "Hook_fired OnCompleted t \<notin> set (events_of w (snd (execute_task t w)))"
    using kinds by (fastforce simp: tr)
  have 5: "Hook_fired OnFailed t \<notin> set (events_of w (snd (execute_task t w)))"
    using kinds by (fastforce simp: tr)
  have 6: "Execute_called t \<notin> set (events_of w (snd (execute_task t w)))"
    using kinds by (fastforce simp: tr)
  have 7: "\<forall>v. Result_set t v \<notin> set (events_of w (snd (execute_task t w)))"
    using kinds by (fastforce simp: tr)
  from 1 2 3 4 5 6 7 show ?thesis by blast
qed

theorem C3_witness:
  "canceled_event (tasks (cancel ''A'' chain_world) ''A'')
   \<and> task_status (tasks (snd (execute_task ''A'' (cancel ''A'' chain_world))) ''A'') = CANCELED
   \<and> task_result (tasks (snd (execute_task ''A'' (cancel ''A'' chain_world))) ''A'') = PyNone
   \<and> filter is_Hook_fired
        (events_of (cancel ''A'' chain_world) (snd (execute_task ''A'' (cancel ''A'' chain_world))))
       = [Hook_fired OnCanceled ''A'']"
  using C3_cancelled_before_start[of "cancel ''A'' chain_world" "''A''"]
  by (simp add: chain_world_tasks Task_init_def)



text \<open>
  Claim C4. When the cancel flag is not set at the start of \<open>execute_task\<close>: if
  \<open>execute\<close> returns \<open>v\<close>, the call sets RUNNING, calls \<open>execute\<close>, stores \<open>v\<close>,
  sets COMPLETED and fires the completed callback, in this order, and when that callback
  returns the task is left COMPLETED with result \<open>v\<close> and the call returns; if
  \<open>execute\<close> raises an instance \<open>e\<close> of Exception, the task is left FAILED with
  result \<open>e\<close>, only the failed callback is fired, and the call raises nothing but what
  the failed callback itself raises, so \<open>e\<close> does not reach the caller.
\<close>

theorem C4_execute_outcome_stored:
  assumes "\<not> canceled_event (tasks w t)"
  shows "(\<forall>v. execute (tasks w t) = Returns v \<longrightarrow>
            (\<exists>rest. events_of w (snd (execute_task t w)) =
               [Status_set t RUNNING, Execute_called t, Result_set t v, Status_set t COMPLETED]
                 @ (case on_task_completed (tasks w t) of None \<Rightarrow> []
                    | Some c \<Rightarrow> [Hook_fired OnCompleted t]) @ rest)
          \<and> (raised_by (on_task_completed (tasks w t)) = None \<longrightarrow>
               fst (execute_task t w) = Returns ()
             \<and> task_result (tasks (snd (execute_task t w)) t) = v
             \<and> task_status (tasks (snd (execute_task t w)) t) = COMPLETED
             \<and> filter is_Hook_fired (events_of w (snd (execute_task t w))) =
                 (case on_task_completed (tasks w t) of None \<Rightarrow> []
                  | Some c \<Rightarrow> [Hook_fired OnCompleted t])))
       \<and> (\<forall>e. execute (tasks w t) = Raises e \<and> isinstance_Exception e \<longrightarrow>
            task_result (tasks (snd (execute_task t w)) t) = PyExceptionObject e
          \<and> task_status (tasks (snd (execute_task t w)) t) = FAILED
          \<and> (\<exists>rest. events_of w (snd (execute_task t w)) =
               [Status_set t RUNNING, Execute_called t, Result_set t (PyExceptionObject e),
                Status_set t FAILED] @ rest)
          \<and> filter is_Hook_fired (events_of w (snd (execute_task t w))) =
               (case on_task_failed (tasks w t) of None \<Rightarrow> [] | Some c \<Rightarrow> [Hook_fired OnFailed t])
          \<and> fst (execute_task t w) =
               (case raised_by (on_task_failed (tasks w t)) of None \<Rightarrow> Returns ()
                | Some e' \<Rightarrow> Raises e'))"
proof (intro conjI allI impI)
  fix v assume ex: "execute (tasks w t) = Returns v"
  show "\<exists>rest. events_of w (snd (execute_task t w)) =
               [Status_set t RUNNING, Execute_called t, Result_set t v, Status_set t COMPLETED]
                 @ (case on_task_completed (tasks w t) of None \<Rightarrow> []
                    | Some c \<Rightarrow> [Hook_fired OnCompleted t]) @ rest"
    by (rule execute_task_returned_trace[OF assms ex])
  assume nr: "raised_by (on_task_completed (tasks w t)) = None"
  note e2 = execute_task_returned_hook_returns[OF assms ex nr]
  show "fst (execute_task t w) = Returns ()" by (simp add: e2)
  show "task_result (tasks (snd (execute_task t w)) t) = v" by (simp add: e2)
  show "task_status (tasks (snd (execute_task t w)) t) = COMPLETED" by (simp add: e2)
  show "filter is_Hook_fired (events_of w (snd (execute_task t w))) =
                 (case on_task_completed (tasks w t) of None \<Rightarrow> []
                  | Some c \<Rightarrow> [Hook_fired OnCompleted t])"
    by (simp add: e2 events_of_def fire_trace filter_hook_fire_events)
next
  fix e assume "execute (tasks w t) = Raises e \<and> isinstance_Exception e"
  then have ex: "execute (tasks w t) = Raises e" and ie: "isinstance_Exception e" by simp_all
  note et = execute_task_raised[OF assms ex ie]
  show "task_result (tasks (snd (execute_task t w)) t) = PyExceptionObject e" by (simp add: et)
  show "task_status (tasks (snd (execute_task t w)) t) = FAILED" by (simp add: et)
  show "\<exists>rest. events_of w (snd (execute_task t w)) =
               [Status_set t RUNNING, Execute_called t, Result_set t (PyExceptionObject e),
                Status_set t FAILED] @ rest"
    by (simp add: et events_of_def fire_trace)
  show "filter is_Hook_fired (events_of w (snd (execute_task t w))) =
               (case on_task_failed (tasks w t) of None \<Rightarrow> [] | Some c \<Rightarrow> [Hook_fired OnFailed t])"
    by (simp add: et events_of_def fire_trace filter_hook_fire_events)
  show "fst (execute_task t w) =
               (case raised_by (on_task_failed (tasks w t)) of None \<Rightarrow> Returns ()
                | Some e' \<Rightarrow> Raises e')"
    by (simp add: et fire_outcome)
qed

theorem C4_witness:
  "\<not> canceled_event (tasks chain_world ''A'')
   \<and> execute (tasks chain_world ''A'') = Returns (PyValue ''a'')
   \<and> task_result (tasks (snd (execute_task ''A'' chain_world)) ''A'') = PyValue ''a''
   \<and> task_status (tasks (snd (execute_task ''A'' chain_world)) ''A'') = COMPLETED
   \<and> filter is_Hook_fired (events_of chain_world (snd (execute_task ''A'' chain_world)))
       = [Hook_fired OnCompleted ''A'']
   \<and> \<not> canceled_event (tasks chain_world ''B'')
   \<and> execute (tasks chain_world ''B'') = Raises (Exception ''Failed'')
   \<and> task_result (tasks (snd (execute_task ''B'' chain_world)) ''B'')
       = PyExceptionObject (Exception ''Failed'')
   \<and> task_status (tasks (snd (execute_task ''B'' chain_world)) ''B'') = FAILED
   \<and> fst (execute_task ''B'' chain_world) = Returns ()"
  using C4_execute_outcome_stored[of chain_world "''A''"]
        C4_execute_outcome_stored[of chain_world "''B''"]
  by (simp add: chain_world_tasks Task_init_def)


text \<open>
  Claim C5, as amended. \<open>execute_task\<close> returns without raising when none of the
  callbacks installed on the task raises (the callbacks of the scheduler never do, and
  no callback may be installed) and \<open>execute\<close> returns or raises an instance of
  Exception. A callback that raises is outside the \<open>try\<close> block in the cancelled and
  failed paths, so its exception leaves \<open>execute_task\<close>, as the counterexample shows.
\<close>

theorem C5_raises_only_from_callbacks:
  assumes "raised_by (on_task_completed (tasks w t)) = None"
      and "raised_by (on_task_failed (tasks w t)) = None"
      and "raised_by (on_task_canceled (tasks w t)) = None"
      and "\<forall>e. execute (tasks w t) = Raises e \<longrightarrow> isinstance_Exception e"
  shows "fst (execute_task t w) = Returns ()"
proof (cases "canceled_event (tasks w t)")
  case True
  then show ?thesis using assms by (simp add: execute_task_canceled fire_outcome)
next
  case False
  show ?thesis
  proof (cases "execute (tasks w t)")
    case (Returns v)
    show ?thesis
      by (simp add: execute_task_returned_hook_returns[OF False Returns assms(1)])
  next
    case (Raises e)
    with assms(4) have "isinstance_Exception e" by simp
    from execute_task_raised[OF False Raises this] assms(2) show ?thesis
      by (simp add: fire_outcome)
  qed
qed

theorem C5_witness:
  "raised_by (on_task_completed (tasks chain_world ''B'')) = None
   \<and> raised_by (on_task_failed (tasks chain_world ''B'')) = None
   \<and> raised_by (on_task_canceled (tasks chain_world ''B'')) = None
   \<and> execute (tasks chain_world ''B'') = Raises (Exception ''Failed'')
   \<and> fst (execute_task ''B'' chain_world) = Returns ()"
  using C5_raises_only_from_callbacks[of chain_world "''B''"]
  by (simp add: chain_world_tasks Task_init_def)


theorem C5_counterexample:
  "fst (execute_task ''A'' raising_hook_world) = Raises (Exception ''hook'')"
  by (simp add: raising_hook_world_def execute_task_def fire_def Task_init_def)



section \<open>Claims about schedule and the callbacks of the scheduler\<close>

lemma fst_dependents_of [simp]: "fst (dependents_of t w) = dependents w t"
  by (simp add: dependents_of_def dependents_def split: option.splits)

lemma map_of_dependents_of:
  "map_of (task_to_dependents (snd (dependents_of d w))) p =
     (if p = d then Some (dependents w d) else map_of (task_to_dependents w) p)"
  by (auto simp: dependents_of_def dependents_def map_add_def split: option.splits)

lemma dependents_after_dependents_of [simp]:
  "dependents (snd (dependents_of d w)) p = dependents w p"
  by (simp add: dependents_def map_of_dependents_of)

lemma add_dependent_simps [simp]:
  "tasks (add_dependent t d w) = tasks w"
  "task_to_dependencies (add_dependent t d w) = task_to_dependencies w"
  "trace (add_dependent t d w) = trace w"
  by (simp_all add: add_dependent_def case_prod_beta)

lemma map_of_add_dependent:
  "map_of (task_to_dependents (add_dependent t d w)) p =
     (if p = d then Some (set_add t (dependents w d)) else map_of (task_to_dependents w) p)"
  by (simp add: add_dependent_def case_prod_beta update_conv' map_of_dependents_of)

lemma dependents_add_dependent:
  "dependents (add_dependent t d w) p = (if p = d then set_add t (dependents w d) else dependents w p)"
  by (simp add: dependents_def map_of_add_dependent)

lemma set_add_idem [simp]: "set_add t (set_add t vs) = set_add t vs"
  by (simp add: set_add_def)

lemma set_set_add [simp]: "set (set_add t vs) = insert t (set vs)"
  by (auto simp: set_add_def)

lemma fold_add_dependent_simps [simp]:
  "tasks (fold (add_dependent t) ds w) = tasks w"
  "task_to_dependencies (fold (add_dependent t) ds w) = task_to_dependencies w"
  "trace (fold (add_dependent t) ds w) = trace w"
  by (induction ds arbitrary: w) simp_all

lemma dependents_fold_add_dependent:
  "dependents (fold (add_dependent t) ds w) p =
     (if p \<in> set ds then set_add t (dependents w p) else dependents w p)"
  by (induction ds arbitrary: w) (auto simp: dependents_add_dependent)

lemma map_of_fold_add_dependent:
  "map_of (task_to_dependents (fold (add_dependent t) ds w)) p =
     (if p \<in> set ds then Some (set_add t (dependents w p)) else map_of (task_to_dependents w) p)"
  by (induction ds arbitrary: w) (auto simp: map_of_add_dependent dependents_add_dependent)

lemma chain_world_dependents:
  "dependents chain_world ''A'' = [''B'']"
  by (simp add: dependents_def chain_world_graph)


text \<open>
  Claim C2. The failed callback and the canceled callback of the scheduler call
  \<open>cancel\<close> on every task in \<open>dependents[u]\<close> and only then notify the condition, so
  every dependent has its flag set when the callback returns; the completed callback
  notifies the condition and changes no task.
\<close>

theorem C2_cascade_then_broadcast:
  "events_of w (scheduler_on_task_failed u w) = map Cancel_called (dependents w u) @ [Notify_all]
   \<and> (\<forall>v\<in>set (dependents w u). canceled_event (tasks (scheduler_on_task_failed u w) v))
   \<and> events_of w (scheduler_on_task_canceled u w) = map Cancel_called (dependents w u) @ [Notify_all]
   \<and> (\<forall>v\<in>set (dependents w u). canceled_event (tasks (scheduler_on_task_canceled u w) v))
   \<and> events_of w (scheduler_on_task_completed u w) = [Notify_all]
   \<and> tasks (scheduler_on_task_completed u w) = tasks w"
  by (simp add: scheduler_callback_defs events_of_def)

theorem C2_witness:
  "events_of chain_world (scheduler_on_task_failed ''A'' chain_world)
     = [Cancel_called ''B'', Notify_all]
   \<and> canceled_event (tasks (scheduler_on_task_failed ''A'' chain_world) ''B'')
   \<and> events_of chain_world (scheduler_on_task_canceled ''A'' chain_world)
     = [Cancel_called ''B'', Notify_all]
   \<and> canceled_event (tasks (scheduler_on_task_canceled ''A'' chain_world) ''B'')
   \<and> events_of chain_world (scheduler_on_task_completed ''A'' chain_world) = [Notify_all]
   \<and> \<not> canceled_event (tasks (scheduler_on_task_completed ''A'' chain_world) ''B'')"
  using C2_cascade_then_broadcast[of chain_world "''A''"]
  by (simp add: chain_world_dependents chain_world_tasks Task_init_def)


text \<open>
  Claim C6. \<open>schedule\<close> raises a SchedulingException exactly when the task is already
  a key of the dependencies dict; then nothing is changed. Otherwise it returns, having
  installed the three callbacks on the task (and changed no other task), recorded the
  task's dependencies under the task, and added the task to the dependents of each of
  its dependencies (and of nothing else).
\<close>

theorem C6_schedule:
  "((\<exists>m. fst (schedule t w) = Raises (SchedulingException m)) \<longleftrightarrow> t \<in> registered w)
   \<and> (t \<in> registered w \<longrightarrow> snd (schedule t w) = w)
   \<and> (t \<notin> registered w \<longrightarrow>
        fst (schedule t w) = Returns ()
      \<and> tasks (snd (schedule t w)) t =
          (tasks w t)\<lparr>on_task_completed := Some SchedulerCompleted,
                      on_task_canceled := Some SchedulerCanceled,
                      on_task_failed := Some SchedulerFailed\<rparr>
      \<and> (\<forall>u. u \<noteq> t \<longrightarrow> tasks (snd (schedule t w)) u = tasks w u)
      \<and> registered (snd (schedule t w)) = insert t (registered w)
      \<and> map_of (task_to_dependencies (snd (schedule t w))) =
          (map_of (task_to_dependencies w))(t \<mapsto> remdups (dependencies (tasks w t)))
      \<and> (\<forall>p. dependents (snd (schedule t w)) p =
            (if p \<in> set (dependencies (tasks w t)) then set_add t (dependents w p)
             else dependents w p))
      \<and> (\<forall>p\<in>set (dependencies (tasks w t)). t \<in> set (dependents (snd (schedule t w)) p)))"
proof (cases "t \<in> registered w")
  case True
  then show ?thesis by (simp add: schedule_def registered_def)
next
  case False
  let ?w3 = "register_on_task_canceled t SchedulerCanceled
               (register_on_task_failed t SchedulerFailed
                 (register_on_task_completed t SchedulerCompleted w))"
  let ?ds = "dependencies (tasks w t)"
  let ?w4 = "?w3\<lparr>task_to_dependencies := AList.update t (remdups ?ds) (task_to_dependencies ?w3)\<rparr>"
  have ds: "dependencies (tasks ?w3 t) = ?ds"
    by (simp add: register_on_task_completed_def register_on_task_failed_def
          register_on_task_canceled_def)
  have sch: "schedule t w = (Returns (), fold (add_dependent t) ?ds ?w4)"
    using False by (simp add: schedule_def registered_def Let_def ds)
  have t3: "tasks ?w3 = (tasks w)(t := (tasks w t)\<lparr>on_task_completed := Some SchedulerCompleted,
                      on_task_canceled := Some SchedulerCanceled,
                      on_task_failed := Some SchedulerFailed\<rparr>)"
    by (simp add: register_on_task_completed_def register_on_task_failed_def
          register_on_task_canceled_def fun_eq_iff)
  have d3: "task_to_dependencies ?w3 = task_to_dependencies w"
           "task_to_dependents ?w3 = task_to_dependents w"
    by (simp_all add: register_on_task_completed_def register_on_task_failed_def
          register_on_task_canceled_def)
  have dep4: "\<And>p. dependents ?w4 p = dependents w p"
    by (simp add: dependents_def d3)
  show ?thesis
    using False
    apply (simp only: sch fst_conv snd_conv)
    apply (intro conjI impI allI ballI)
            apply simp
           apply simp
          apply simp
         apply (simp add: t3 surjective)
        apply (simp add: t3)
       apply (simp add: registered_def d3 dom_update)
      apply (simp add: d3 update_conv')
     apply (simp add: dependents_fold_add_dependent dep4)
    apply (simp add: dependents_fold_add_dependent dep4)
    done
qed


theorem C6_witness:
  "''A'' \<in> registered chain_world
   \<and> (\<exists>m. fst (schedule ''A'' chain_world) = Raises (SchedulingException m))
   \<and> snd (schedule ''A'' chain_world) = chain_world
   \<and> ''B'' \<notin> registered unscheduled_chain
   \<and> fst (schedule ''B'' unscheduled_chain) = Returns ()
   \<and> on_task_failed (tasks (snd (schedule ''B'' unscheduled_chain)) ''B'') = Some SchedulerFailed
   \<and> map_of (task_to_dependencies (snd (schedule ''B'' unscheduled_chain))) ''B'' = Some [''A'']
   \<and> dependents (snd (schedule ''B'' unscheduled_chain)) ''A'' = [''B'']"
  using C6_schedule[of "''A''" chain_world] C6_schedule[of "''B''" unscheduled_chain]
  by (simp add: registered_def chain_world_graph unscheduled_chain_def chain_tasks_def
        Task_init_def dependents_def set_add_def)


section \<open>Claims about the readiness iterator\<close>

lemma kahn_loop_frame:
  "tasks (snd (kahn_loop w od q c)) = tasks w
   \<and> task_to_dependencies (snd (kahn_loop w od q c)) = task_to_dependencies w
   \<and> trace (snd (kahn_loop w od q c)) = trace w"
proof (induction w od q c rule: kahn_loop.induct)
  case (1 w od c)
  then show ?case by simp
next
  case (2 w od t q c)
  obtain vs w1 where d: "dependents_of t w = (vs, w1)" by (cases "dependents_of t w")
  then have w1: "w1 = snd (dependents_of t w)" by simp
  show ?case
  proof (cases "decrement_dependents vs od q")
    case (Raises e)
    then show ?thesis by (simp add: d) (simp add: w1)
  next
    case (Returns p)
    obtain od' q' where p: "p = (od', q')" by (cases p)
    from "2.IH"[OF d[symmetric] Returns p[symmetric]] show ?thesis
      by (simp add: d Returns p) (simp add: w1)
  qed
qed

lemma has_cycles_frame [simp]:
  "tasks (snd (has_cycles w)) = tasks w"
  "task_to_dependencies (snd (has_cycles w)) = task_to_dependencies w"
  "trace (snd (has_cycles w)) = trace w"
  using kahn_loop_frame[of w "map (\<lambda>(t, ds). (t, int (length ds))) (task_to_dependencies w)"
      "map fst (filter (\<lambda>(t, degree). degree = 0)
         (map (\<lambda>(t, ds). (t, int (length ds))) (task_to_dependencies w)))" 0]
  by (auto simp: has_cycles_def Let_def split: prod.splits outcome.splits)

lemma has_pending_tasks_iff:
  "has_pending_tasks w \<longleftrightarrow> (\<exists>t\<in>registered w. task_status (tasks w t) = PENDING)"
  by (auto simp: has_pending_tasks_def registered_def list_ex_iff)

lemma collect_ready_iff:
  "t \<in> set (collect_ready w) \<longleftrightarrow>
     (\<exists>ds. (t, ds) \<in> set (task_to_dependencies w) \<and> task_status (tasks w t) = PENDING
          \<and> (\<forall>d\<in>set ds. is_terminal (task_status (tasks w d))))"
  by (force simp: collect_ready_def is_ready_def list_all_iff)

lemma collect_ready_prerequisites:
  assumes "distinct (map fst (task_to_dependencies w))"
  shows "t \<in> set (collect_ready w) \<longleftrightarrow>
     (t \<in> registered w \<and> task_status (tasks w t) = PENDING
      \<and> (\<forall>d\<in>set (prerequisites w t). is_terminal (task_status (tasks w d))))"
proof -
  have "\<And>ds. (t, ds) \<in> set (task_to_dependencies w) \<longleftrightarrow> map_of (task_to_dependencies w) t = Some ds"
    using assms by simp
  then show ?thesis
    unfolding collect_ready_iff prerequisites_def registered_def
    by (force split: option.splits simp: map_of_eq_None_iff[symmetric])
qed

lemma distinct_collect_ready:
  "distinct (map fst (task_to_dependencies w)) \<Longrightarrow> distinct (collect_ready w)"
  by (simp add: collect_ready_def distinct_map_filter)

lemma collect_ready_mark_as_scheduled:
  assumes "t \<in> set (collect_ready w)" "u \<in> set (collect_ready w)" "u \<noteq> t"
  shows "u \<in> set (collect_ready (mark_as_scheduled t w))"
proof -
  from assms(1) have pt: "task_status (tasks w t) = PENDING"
    by (auto simp: collect_ready_iff)
  from assms(2) obtain ds where ds: "(u, ds) \<in> set (task_to_dependencies w)"
      "task_status (tasks w u) = PENDING"
      "\<forall>d\<in>set ds. is_terminal (task_status (tasks w d))"
    by (auto simp: collect_ready_iff)
  from ds(3) pt have "t \<notin> set ds"
    by (auto simp: is_terminal_def)
  with ds assms(3) show ?thesis
    unfolding collect_ready_iff mark_as_scheduled_def
    by (intro exI[of _ ds]) auto
qed

lemma batch_ready_yield:
  assumes "distinct (t # ts)" "set (t # ts) \<subseteq> set (collect_ready w)"
  shows "batch_ready (Suspended ts) (mark_as_scheduled t w)"
  using assms by (auto intro: collect_ready_mark_as_scheduled)

lemma while_True_cases:
  "while_True w =
     (if \<not> has_pending_tasks w then (StopIteration, Finished, w)
      else if collect_ready w = [] then (Block, Waiting, log_event Wait_called w)
      else (Yield (hd (collect_ready w)), Suspended (tl (collect_ready w)),
            mark_as_scheduled (hd (collect_ready w)) w))"
  by (simp add: while_True_def split: list.splits)

lemma while_True_yield:
  assumes "distinct (map fst (task_to_dependencies w))" "while_True w = (Yield t, g', w')"
  shows "t \<in> set (collect_ready w) \<and> w' = mark_as_scheduled t w \<and> batch_ready g' w'"
proof -
  from assms(2) have ne: "collect_ready w \<noteq> []" and t: "t = hd (collect_ready w)"
    and g': "g' = Suspended (tl (collect_ready w))" and w': "w' = mark_as_scheduled t w"
    by (auto simp: while_True_cases split: if_splits)
  from ne t have c: "collect_ready w = t # tl (collect_ready w)" by simp
  have "distinct (t # tl (collect_ready w))" "set (t # tl (collect_ready w)) \<subseteq> set (collect_ready w)"
    using distinct_collect_ready[OF assms(1)] c by simp_all
  from batch_ready_yield[OF this] c show ?thesis
    by (metis g' w' list.set_intros(1))
qed

lemma while_True_batch_ready:
  assumes "distinct (map fst (task_to_dependencies w))" "while_True w = (r, g', w')"
  shows "batch_ready g' w'"
proof (cases r)
  case (Yield t)
  with while_True_yield[OF assms(1), of t g' w'] assms(2) show ?thesis by blast
qed (use assms(2) in \<open>auto simp: while_True_cases split: if_splits\<close>)

lemma while_True_stop:
  "fst (while_True w) = StopIteration \<longleftrightarrow> \<not> has_pending_tasks w"
  by (simp add: while_True_cases)

lemma while_True_block:
  "fst (while_True w) = Block \<longleftrightarrow> has_pending_tasks w \<and> collect_ready w = []"
  by (simp add: while_True_cases)

lemma has_pending_has_cycles [simp]: "has_pending_tasks (snd (has_cycles w)) = has_pending_tasks w"
  by (simp add: has_pending_tasks_def)

lemma is_ready_has_cycles [simp]: "is_ready (snd (has_cycles w)) = is_ready w"
  by (simp add: fun_eq_iff is_ready_def)

lemma collect_ready_has_cycles [simp]: "collect_ready (snd (has_cycles w)) = collect_ready w"
  by (simp add: collect_ready_def)

lemma next_loop_condition:
  assumes "evaluates_loop_condition g w"
  shows "\<exists>w1. next_ready_tasks g w = while_True w1 \<and> tasks w1 = tasks w
            \<and> task_to_dependencies w1 = task_to_dependencies w
            \<and> has_pending_tasks w1 = has_pending_tasks w \<and> collect_ready w1 = collect_ready w"
proof (cases g)
  case Created
  with assms have "fst (has_cycles w) = Returns False"
    by (simp add: evaluates_loop_condition_def)
  then have "next_ready_tasks Created w = while_True (snd (has_cycles w))"
    by (cases "has_cycles w") simp
  then show ?thesis using Created
    by (intro exI[of _ "snd (has_cycles w)"]) simp
next
  case (Suspended ts)
  with assms show ?thesis by (auto simp: evaluates_loop_condition_def)
next
  case Waiting
  then show ?thesis by auto
next
  case Finished
  with assms show ?thesis by (simp add: evaluates_loop_condition_def)
qed



text \<open>
  Claim C1. Whatever the state of the graph, a call of \<open>next\<close> on the generator yields
  a task only if the task is registered and PENDING and all its recorded dependencies are
  terminal, and the task is SCHEDULED when it is yielded; the tasks the generator keeps
  for its later yields remain ready. When the call evaluates the loop condition, it ends
  with StopIteration exactly when no registered task is PENDING, and it waits on the
  condition exactly when some task is PENDING and none is ready.
\<close>

theorem C1_readiness_iterator:
  assumes "distinct (map fst (task_to_dependencies w))"
      and "batch_ready g w"
      and "next_ready_tasks g w = (r, g', w')"
  shows "(\<forall>t. r = Yield t \<longrightarrow>
            t \<in> registered w
          \<and> task_status (tasks w t) = PENDING
          \<and> (\<forall>d\<in>set (prerequisites w t). is_terminal (task_status (tasks w d)))
          \<and> task_status (tasks w' t) = SCHEDULED)
       \<and> batch_ready g' w'
       \<and> (evaluates_loop_condition g w \<longrightarrow>
            (r = StopIteration \<longleftrightarrow> (\<forall>t\<in>registered w. task_status (tasks w t) \<noteq> PENDING))
          \<and> (r = Block \<longleftrightarrow> (\<exists>t\<in>registered w. task_status (tasks w t) = PENDING)
                              \<and> collect_ready w = []))
       \<and> (\<forall>t ts. g = Suspended (t # ts) \<longrightarrow> r = Yield t \<and> g' = Suspended ts)"
proof -
  have loop: ?thesis if lc: "evaluates_loop_condition g w"
  proof -
    from next_loop_condition[OF lc] obtain w1 where w1: "next_ready_tasks g w = while_True w1"
      "tasks w1 = tasks w" "task_to_dependencies w1 = task_to_dependencies w"
      "has_pending_tasks w1 = has_pending_tasks w" "collect_ready w1 = collect_ready w"
      by blast
    have wt: "while_True w1 = (r, g', w')" using w1(1) assms(3) by simp
    have d1: "distinct (map fst (task_to_dependencies w1))" using assms(1) w1(3) by simp
    have a: "\<forall>t. r = Yield t \<longrightarrow>
            t \<in> registered w \<and> task_status (tasks w t) = PENDING
          \<and> (\<forall>d\<in>set (prerequisites w t). is_terminal (task_status (tasks w d)))
          \<and> task_status (tasks w' t) = SCHEDULED"
    proof (intro allI impI)
      fix t assume "r = Yield t"
      with while_True_yield[OF d1, of t g' w'] wt
      have "t \<in> set (collect_ready w1)" "w' = mark_as_scheduled t w1" by simp_all
      then have "t \<in> set (collect_ready w)" "task_status (tasks w' t) = SCHEDULED"
        by (simp_all add: w1(5) mark_as_scheduled_def)
      with collect_ready_prerequisites[OF assms(1), of t]
      show "t \<in> registered w \<and> task_status (tasks w t) = PENDING
          \<and> (\<forall>d\<in>set (prerequisites w t). is_terminal (task_status (tasks w d)))
          \<and> task_status (tasks w' t) = SCHEDULED" by simp
    qed
    have b: "batch_ready g' w'" by (rule while_True_batch_ready[OF d1 wt])
    have c: "r = StopIteration \<longleftrightarrow> (\<forall>t\<in>registered w. task_status (tasks w t) \<noteq> PENDING)"
      using while_True_stop[of w1] wt w1(4) by (simp add: has_pending_tasks_iff[of w])
    have d: "r = Block \<longleftrightarrow> (\<exists>t\<in>registered w. task_status (tasks w t) = PENDING)
                              \<and> collect_ready w = []"
      using while_True_block[of w1] wt w1(4,5) by (simp add: has_pending_tasks_iff[of w])
    have e: "\<forall>t ts. g = Suspended (t # ts) \<longrightarrow> r = Yield t \<and> g' = Suspended ts"
      using lc by (auto simp: evaluates_loop_condition_def)
    from a b c d e show ?thesis by blast
  qed
  show ?thesis
  proof (cases g)
    case Created
    show ?thesis
    proof (cases "evaluates_loop_condition g w")
      case True
      then show ?thesis by (rule loop)
    next
      case False
      then have "fst (has_cycles w) \<noteq> Returns False"
        using Created by (simp add: evaluates_loop_condition_def)
      then have "(\<exists>e. r = Raise e) \<and> g' = Finished"
        using assms(3) Created
        by (cases "has_cycles w") (auto split: outcome.splits bool.splits)
      with False Created show ?thesis by auto
    qed
  next
    case (Suspended ts)
    show ?thesis
    proof (cases ts)
      case Nil
      with Suspended have "evaluates_loop_condition g w"
        by (simp add: evaluates_loop_condition_def)
      then show ?thesis by (rule loop)
    next
      case (Cons t ts')
      with Suspended assms(3) have r: "r = Yield t" "g' = Suspended ts'" "w' = mark_as_scheduled t w"
        by simp_all
      from Suspended Cons assms(2) have br: "distinct (t # ts')" "set (t # ts') \<subseteq> set (collect_ready w)"
        by simp_all
      from batch_ready_yield[OF br] have b: "batch_ready g' w'" by (simp add: r)
      from br have "t \<in> set (collect_ready w)" by simp
      with collect_ready_prerequisites[OF assms(1), of t]
      have a: "t \<in> registered w \<and> task_status (tasks w t) = PENDING
          \<and> (\<forall>d\<in>set (prerequisites w t). is_terminal (task_status (tasks w d)))
          \<and> task_status (tasks w' t) = SCHEDULED"
        by (simp add: r mark_as_scheduled_def)
      have nl: "\<not> evaluates_loop_condition g w"
        using Suspended Cons by (simp add: evaluates_loop_condition_def)
      from a b nl r Suspended Cons show ?thesis by auto
    qed
  next
    case Waiting
    then have "evaluates_loop_condition g w"
      by (simp add: evaluates_loop_condition_def)
    then show ?thesis by (rule loop)
  next
    case Finished
    with assms(3) show ?thesis by (auto simp: evaluates_loop_condition_def)
  qed
qed


lemma chain_has_cycles: "fst (has_cycles chain_world) = Returns False"
  by (simp add: has_cycles_def chain_world_graph dependents_of_def)

lemma chain_collect_ready: "collect_ready chain_world = [''A'']"
  by (simp add: collect_ready_def is_ready_def chain_world_graph chain_world_tasks Task_init_def is_terminal_def)

lemma chain_next: "fst (next_ready_tasks Created chain_world) = Yield ''A''"
proof -
  have "next_ready_tasks Created chain_world = while_True (snd (has_cycles chain_world))"
    using chain_has_cycles by (cases "has_cycles chain_world") simp
  then show ?thesis
    by (simp add: while_True_cases chain_collect_ready has_pending_tasks_def chain_world_graph
          chain_world_tasks Task_init_def)
qed

theorem C1_witness:
  "distinct (map fst (task_to_dependencies chain_world))
   \<and> batch_ready Created chain_world
   \<and> fst (next_ready_tasks Created chain_world) = Yield ''A''
   \<and> ''A'' \<in> registered chain_world
   \<and> task_status (tasks chain_world ''A'') = PENDING
   \<and> task_status (tasks (snd (snd (next_ready_tasks Created chain_world))) ''A'') = SCHEDULED
   \<and> batch_ready (fst (snd (next_ready_tasks Created chain_world)))
        (snd (snd (next_ready_tasks Created chain_world)))"
  using C1_readiness_iterator[of chain_world Created
          "fst (next_ready_tasks Created chain_world)"
          "fst (snd (next_ready_tasks Created chain_world))"
          "snd (snd (next_ready_tasks Created chain_world))"]
        chain_next
  by (simp add: chain_world_graph)



section \<open>The cycle check\<close>

lemma decrement_dependents_result:
  assumes "distinct vs" "set vs \<subseteq> dom (map_of od)"
  shows "\<exists>od'. decrement_dependents vs od q
                 = Returns (od', q @ filter (\<lambda>v. map_of od v = Some 1) vs)
          \<and> (\<forall>v. map_of od' v =
                (if v \<in> set vs then map_option (\<lambda>d. d - 1) (map_of od v) else map_of od v))"
  using assms
proof (induction vs arbitrary: od q)
  case Nil
  then show ?case by simp
next
  case (Cons v vs)
  from Cons.prems obtain d where d: "map_of od v = Some d" by auto
  let ?od1 = "AList.update v (d - 1) od"
  let ?q1 = "if d - 1 = 0 then q @ [v] else q"
  have m1: "map_of ?od1 = (map_of od)(v \<mapsto> d - 1)" by (rule update_conv')
  from Cons.prems have dv: "distinct vs" "v \<notin> set vs" "set vs \<subseteq> dom (map_of ?od1)"
    by (auto simp: m1)
  from Cons.IH[OF dv(1) dv(3), of ?q1] obtain od' where
    r: "decrement_dependents vs ?od1 ?q1 = Returns (od', ?q1 @ filter (\<lambda>u. map_of ?od1 u = Some 1) vs)"
    and m: "\<forall>u. map_of od' u =
                (if u \<in> set vs then map_option (\<lambda>d. d - 1) (map_of ?od1 u) else map_of ?od1 u)"
    by blast
  have f: "filter (\<lambda>u. map_of ?od1 u = Some 1) vs = filter (\<lambda>u. map_of od u = Some 1) vs"
    using dv(2) by (intro filter_cong) (auto simp: m1)
  have q: "?q1 @ filter (\<lambda>u. map_of od u = Some 1) vs
             = q @ filter (\<lambda>u. map_of od u = Some 1) (v # vs)"
    using d by auto
  have "decrement_dependents (v # vs) od q
          = Returns (od', q @ filter (\<lambda>u. map_of od u = Some 1) (v # vs))"
    using d r f q by simp
  moreover have "\<forall>u. map_of od' u =
      (if u \<in> set (v # vs) then map_option (\<lambda>d. d - 1) (map_of od u) else map_of od u)"
    using m dv(2) d by (auto simp: m1)
  ultimately show ?case by blast
qed

lemma graph_dependents_of [simp]:
  "registered (snd (dependents_of t w)) = registered w"
  "prerequisites (snd (dependents_of t w)) = prerequisites w"
  by (simp_all add: registered_def prerequisites_def fun_eq_iff)

lemma dependents_dependents_of' [simp]:
  "dependents (snd (dependents_of t w)) = dependents w"
  by (simp add: fun_eq_iff)

lemma graph_ok_dependents_of: "graph_ok w \<Longrightarrow> graph_ok (snd (dependents_of t w))"
  by (simp add: graph_ok_def)

lemma stuck_dependents_of: "stuck w S \<Longrightarrow> stuck (snd (dependents_of t w)) S"
  by (simp add: stuck_def)

lemma kahn_inv_step:
  assumes ok: "graph_ok w" and st: "stuck w S" and inv: "kahn_inv w S od (t # q) P"
  shows "\<exists>od' q'. decrement_dependents (dependents w t) od q = Returns (od', q')
           \<and> kahn_inv (snd (dependents_of t w)) S od' q' (insert t P)
           \<and> t \<notin> P"
proof -
  let ?vs = "dependents w t"
  from inv have fin: "finite P" and dq: "distinct (t # q)" and disj: "set (t # q) \<inter> P = {}"
    and sub: "set (t # q) \<union> P \<subseteq> registered w - S"
    and deg: "\<forall>v\<in>registered w. \<exists>d. map_of od v = Some d
            \<and> int (card (set (prerequisites w v) - P)) \<le> d"
    and dn: "\<forall>v\<in>set (t # q) \<union> P. \<exists>d. map_of od v = Some d \<and> d \<le> 0"
    by (simp_all add: kahn_inv_def)
  from ok have dvs: "distinct ?vs"
    and vs: "\<forall>v\<in>set ?vs. v \<in> registered w \<and> t \<in> set (prerequisites w v)"
    by (simp_all add: graph_ok_def)
  have tP: "t \<notin> P" using disj by auto
  have "set ?vs \<subseteq> dom (map_of od)" using vs deg by blast
  from decrement_dependents_result[OF dvs this, of q] obtain od' where
    r: "decrement_dependents ?vs od q = Returns (od', q @ filter (\<lambda>v. map_of od v = Some 1) ?vs)"
    and m: "\<forall>v. map_of od' v =
                (if v \<in> set ?vs then map_option (\<lambda>d. d - 1) (map_of od v) else map_of od v)"
    by blast
  let ?new = "filter (\<lambda>v. map_of od v = Some 1) ?vs"
  let ?q' = "q @ ?new"
  have deg': "\<exists>d. map_of od' v = Some d \<and> int (card (set (prerequisites w v) - insert t P)) \<le> d"
    if v: "v \<in> registered w" for v
  proof -
    from deg v obtain d where d: "map_of od v = Some d"
      "int (card (set (prerequisites w v) - P)) \<le> d" by blast
    show ?thesis
    proof (cases "v \<in> set ?vs")
      case True
      with vs tP have "t \<in> set (prerequisites w v) - P" by simp
      then have "card (set (prerequisites w v) - insert t P)
                   = card (set (prerequisites w v) - P) - 1"
        and "0 < card (set (prerequisites w v) - P)"
        by (simp_all add: card_gt_0_iff) auto
      with d True m show ?thesis by auto
    next
      case False
      have "card (set (prerequisites w v) - insert t P) \<le> card (set (prerequisites w v) - P)"
        by (intro card_mono) auto
      with d False m show ?thesis by auto
    qed
  qed
  have dn': "\<exists>d. map_of od' v = Some d \<and> d \<le> 0" if v: "v \<in> set ?q' \<union> insert t P" for v
  proof (cases "v \<in> set (t # q) \<union> P")
    case True
    with dn obtain d where "map_of od v = Some d" "d \<le> 0" by blast
    with m show ?thesis by (cases "v \<in> set ?vs") auto
  next
    case False
    with v have "v \<in> set ?vs" "map_of od v = Some 1" by auto
    with m show ?thesis by auto
  qed
  have new_fresh: "v \<notin> set (t # q) \<union> P" if "v \<in> set ?new" for v
  proof
    assume "v \<in> set (t # q) \<union> P"
    with dn obtain d where "map_of od v = Some d" "d \<le> 0" by blast
    with that show False by auto
  qed
  have new_reg: "v \<in> registered w - S" if v: "v \<in> set ?new" for v
  proof -
    from v vs have vr: "v \<in> registered w" by auto
    have "v \<notin> S"
    proof
      assume "v \<in> S"
      with st obtain p where p: "p \<in> set (prerequisites w v)" "p \<in> S \<or> p \<notin> registered w"
        by (auto simp: stuck_def)
      with sub have "p \<notin> insert t P" by auto
      with p have "p \<in> set (prerequisites w v) - insert t P" by simp
      then have "0 < card (set (prerequisites w v) - insert t P)"
        by (auto simp: card_gt_0_iff)
      moreover from deg'[OF vr] obtain d where "map_of od' v = Some d"
        "int (card (set (prerequisites w v) - insert t P)) \<le> d" by blast
      moreover from v m have "map_of od' v = Some 0" by auto
      ultimately show False by simp
    qed
    with vr show ?thesis by simp
  qed
  have "kahn_inv (snd (dependents_of t w)) S od' ?q' (insert t P)"
    unfolding kahn_inv_def
  proof (intro conjI)
    show "finite (insert t P)" using fin by simp
    show "distinct ?q'" using dq dvs new_fresh by auto
    show "set ?q' \<inter> insert t P = {}" using dq disj new_fresh by auto
    show "set ?q' \<union> insert t P \<subseteq> registered (snd (dependents_of t w)) - S"
      using sub new_reg by auto
    show "\<forall>v\<in>registered (snd (dependents_of t w)). \<exists>d. map_of od' v = Some d
            \<and> int (card (set (prerequisites (snd (dependents_of t w)) v) - insert t P)) \<le> d"
      using deg' by simp
    show "\<forall>v\<in>set ?q' \<union> insert t P. \<exists>d. map_of od' v = Some d \<and> d \<le> 0"
      using dn' by blast
  qed
  with r tP show ?thesis by blast
qed

lemma kahn_loop_count:
  assumes "graph_ok w" "stuck w S" "kahn_inv w S od q P" "c = card P"
  shows "\<exists>n. fst (kahn_loop w od q c) = Returns n \<and> n \<le> card (registered w - S)"
  using assms
proof (induction w od q c arbitrary: P rule: kahn_loop.induct)
  case (1 w od c)
  then have "finite P" "P \<subseteq> registered w - S" by (simp_all add: kahn_inv_def)
  moreover have "finite (registered w - S)" by (simp add: registered_def)
  ultimately have "card P \<le> card (registered w - S)" by (intro card_mono)
  with 1 show ?case by simp
next
  case (2 w od t q c)
  from kahn_inv_step[OF "2.prems"(1,2,3)] obtain od' q' where
    r: "decrement_dependents (dependents w t) od q = Returns (od', q')"
    and inv': "kahn_inv (snd (dependents_of t w)) S od' q' (insert t P)" and tP: "t \<notin> P"
    by blast
  let ?w1 = "snd (dependents_of t w)"
  have d: "(dependents w t, ?w1) = dependents_of t w"
    by (simp add: prod_eq_iff)
  from "2.prems"(3) have "finite P" by (simp add: kahn_inv_def)
  with tP "2.prems"(4) have c: "c + 1 = card (insert t P)" by simp
  from "2.IH"[OF d r refl graph_ok_dependents_of[OF "2.prems"(1)]
        stuck_dependents_of[OF "2.prems"(2)] inv' c]
  obtain n where "fst (kahn_loop ?w1 od' q' (c + 1)) = Returns n" "n \<le> card (registered w - S)"
    by auto
  moreover have "kahn_loop w od (t # q) c = kahn_loop ?w1 od' q' (c + 1)"
    using r by (simp add: case_prod_beta)
  ultimately show ?case by simp
qed


lemma map_of_initial_out_degree:
  "map_of (initial_out_degree w) v
     = map_option (\<lambda>ds. int (length ds)) (map_of (task_to_dependencies w) v)"
  by (simp add: initial_out_degree_def map_of_map)

lemma initial_ready_queue_eq:
  "initial_ready_queue w = map fst (filter (\<lambda>td. snd td = []) (task_to_dependencies w))"
  by (simp add: initial_ready_queue_def initial_out_degree_def filter_map comp_def
        case_prod_beta)

lemma map_of_registered:
  assumes "distinct (map fst (task_to_dependencies w))" "v \<in> registered w"
  shows "map_of (task_to_dependencies w) v = Some (prerequisites w v)"
  using assms by (auto simp: registered_def prerequisites_def split: option.splits
      simp: map_of_eq_None_iff[symmetric])

lemma kahn_inv_initial:
  assumes ok: "graph_ok w" and st: "stuck w S"
  shows "kahn_inv w S (initial_out_degree w) (initial_ready_queue w) {}"
proof -
  from ok have dk: "distinct (map fst (task_to_dependencies w))"
    and dp: "\<And>t. distinct (prerequisites w t)"
    by (simp_all add: graph_ok_def)
  have q0: "v \<in> registered w \<and> prerequisites w v = []" if "v \<in> set (initial_ready_queue w)" for v
  proof -
    from that have "(v, []) \<in> set (task_to_dependencies w)"
      by (auto simp: initial_ready_queue_eq)
    with dk show ?thesis
      by (force simp: registered_def prerequisites_def)
  qed
  have deg: "map_of (initial_out_degree w) v = Some (int (card (set (prerequisites w v))))"
    if "v \<in> registered w" for v
    using map_of_registered[OF dk that] dp[of v]
    by (simp add: map_of_initial_out_degree distinct_card)
  show ?thesis
    unfolding kahn_inv_def
  proof (intro conjI)
    show "distinct (initial_ready_queue w)"
      using dk by (simp add: initial_ready_queue_eq distinct_map_filter)
    show "set (initial_ready_queue w) \<union> {} \<subseteq> registered w - S"
      using q0 st by (fastforce simp: stuck_def)
    show "\<forall>v\<in>registered w. \<exists>d. map_of (initial_out_degree w) v = Some d
            \<and> int (card (set (prerequisites w v) - {})) \<le> d"
      using deg by simp
    show "\<forall>v\<in>set (initial_ready_queue w) \<union> {}. \<exists>d. map_of (initial_out_degree w) v = Some d \<and> d \<le> 0"
      using q0 deg by auto
  qed simp_all
qed

lemma has_cycles_processed_count:
  "has_cycles w =
     (case processed_count w of
        Raises e \<Rightarrow> Raises e
      | Returns n \<Rightarrow> Returns (n \<noteq> length (task_to_dependencies w)),
      snd (kahn_loop w (initial_out_degree w) (initial_ready_queue w) 0))"
  using kahn_loop_frame[of w "initial_out_degree w" "initial_ready_queue w" 0]
  by (auto simp: has_cycles_def Let_def processed_count_def initial_out_degree_def
        initial_ready_queue_def split: prod.splits outcome.splits)

lemma processed_count_bound:
  assumes "graph_ok w" "stuck w S"
  shows "\<exists>n. processed_count w = Returns n \<and> n \<le> card (registered w - S)"
  unfolding processed_count_def
  by (rule kahn_loop_count[OF assms kahn_inv_initial[OF assms]]) simp

lemma stuck_empty: "stuck w {}"
  by (simp add: stuck_def)

lemma has_cycles_returns:
  assumes "graph_ok w"
  shows "\<exists>n. processed_count w = Returns n
           \<and> fst (has_cycles w) = Returns (n \<noteq> length (task_to_dependencies w))"
  using processed_count_bound[OF assms stuck_empty]
  by (auto simp: has_cycles_processed_count)

lemma has_cycles_stuck:
  assumes ok: "graph_ok w" and st: "stuck w S" and ne: "S \<noteq> {}"
  shows "fst (has_cycles w) = Returns True"
proof -
  from processed_count_bound[OF ok st] obtain n where
    n: "processed_count w = Returns n" "n \<le> card (registered w - S)" by blast
  from ok have dk: "distinct (map fst (task_to_dependencies w))" by (simp add: graph_ok_def)
  have fin: "finite (registered w)" by (simp add: registered_def)
  from st ne have "registered w - S \<subset> registered w" by (auto simp: stuck_def)
  with fin have "card (registered w - S) < card (registered w)" by (rule psubset_card_mono)
  also have "card (registered w) = length (task_to_dependencies w)"
    using distinct_card[OF dk] by (simp add: registered_def)
  finally have "n \<noteq> length (task_to_dependencies w)" using n(2) by simp
  with n(1) show ?thesis by (simp add: has_cycles_processed_count)
qed

lemma next_Created_raises:
  assumes "fst (has_cycles w) = Returns True"
  shows "next_ready_tasks Created w = (Raise circular, Finished, snd (has_cycles w))"
  using assms by (cases "has_cycles w") (simp add: circular_def)

lemma dependency_path_stuck:
  assumes "dependency_path w (us @ [x])" "u \<in> set us"
  shows "u \<in> registered w \<and> (\<exists>p\<in>set (prerequisites w u). p \<in> set us \<or> p = x)"
  using assms
proof (induction us)
  case Nil
  then show ?case by simp
next
  case (Cons a us)
  show ?case
  proof (cases us)
    case Nil
    with Cons.prems show ?thesis by auto
  next
    case (Cons b vs)
    with Cons.prems Cons.IH show ?thesis by auto
  qed
qed

lemma dependency_cycle_stuck:
  assumes "dependency_cycle w us"
  shows "stuck w (set us) \<and> set us \<noteq> {}"
proof -
  from assms have ne: "us \<noteq> []" and p: "dependency_path w (us @ [hd us])"
    by (simp_all add: dependency_cycle_def)
  from ne have "hd us \<in> set us" by simp
  with dependency_path_stuck[OF p] ne show ?thesis
    unfolding stuck_def by blast
qed


lemma schedule_registered:
  "t \<in> registered w \<Longrightarrow>
     schedule t w =
       (Raises (SchedulingException (''Task '' @ t @ '' already exists in the scheduler.'')), w)"
  by (simp add: schedule_def registered_def)

lemma schedule_fresh:
  assumes "t \<notin> registered w"
  shows "fst (schedule t w) = Returns ()"
    and "tasks (snd (schedule t w)) =
          (tasks w)(t := (tasks w t)\<lparr>on_task_completed := Some SchedulerCompleted,
                      on_task_canceled := Some SchedulerCanceled,
                      on_task_failed := Some SchedulerFailed\<rparr>)"
    and "task_to_dependencies (snd (schedule t w)) =
           AList.update t (remdups (dependencies (tasks w t))) (task_to_dependencies w)"
    and "dependents (snd (schedule t w)) p =
            (if p \<in> set (dependencies (tasks w t)) then set_add t (dependents w p)
             else dependents w p)"
    and "trace (snd (schedule t w)) = trace w"
proof -
  let ?w3 = "register_on_task_canceled t SchedulerCanceled
               (register_on_task_failed t SchedulerFailed
                 (register_on_task_completed t SchedulerCompleted w))"
  let ?ds = "dependencies (tasks w t)"
  let ?w4 = "?w3\<lparr>task_to_dependencies := AList.update t (remdups ?ds) (task_to_dependencies ?w3)\<rparr>"
  have ds: "dependencies (tasks ?w3 t) = ?ds"
    by (simp add: register_on_task_completed_def register_on_task_failed_def
          register_on_task_canceled_def)
  have sch: "schedule t w = (Returns (), fold (add_dependent t) ?ds ?w4)"
    using assms by (simp add: schedule_def registered_def Let_def ds)
  have t3: "tasks ?w3 = (tasks w)(t := (tasks w t)\<lparr>on_task_completed := Some SchedulerCompleted,
                      on_task_canceled := Some SchedulerCanceled,
                      on_task_failed := Some SchedulerFailed\<rparr>)"
    by (simp add: register_on_task_completed_def register_on_task_failed_def
          register_on_task_canceled_def fun_eq_iff)
  have d3: "task_to_dependencies ?w3 = task_to_dependencies w"
           "task_to_dependents ?w3 = task_to_dependents w" "trace ?w3 = trace w"
    by (simp_all add: register_on_task_completed_def register_on_task_failed_def
          register_on_task_canceled_def)
  have dep4: "\<And>p. dependents ?w4 p = dependents w p"
    by (simp add: dependents_def d3)
  show "fst (schedule t w) = Returns ()" by (simp add: sch)
  show "tasks (snd (schedule t w)) =
          (tasks w)(t := (tasks w t)\<lparr>on_task_completed := Some SchedulerCompleted,
                      on_task_canceled := Some SchedulerCanceled,
                      on_task_failed := Some SchedulerFailed\<rparr>)"
    by (simp add: sch t3)
  show "task_to_dependencies (snd (schedule t w)) =
           AList.update t (remdups (dependencies (tasks w t))) (task_to_dependencies w)"
    by (simp add: sch d3)
  show "dependents (snd (schedule t w)) p =
            (if p \<in> set (dependencies (tasks w t)) then set_add t (dependents w p)
             else dependents w p)"
    by (simp add: sch dependents_fold_add_dependent dep4)
  show "trace (snd (schedule t w)) = trace w" by (simp add: sch d3)
qed

lemma distinct_set_add: "distinct vs \<Longrightarrow> distinct (set_add t vs)"
  by (simp add: set_add_def)

lemma graph_ok_schedule:
  assumes ok: "graph_ok w"
  shows "graph_ok (snd (schedule t w))"
proof (cases "t \<in> registered w")
  case True
  with ok show ?thesis by (simp add: schedule_registered)
next
  case False
  let ?w' = "snd (schedule t w)"
  let ?ds = "dependencies (tasks w t)"
  note f = schedule_fresh[OF False]
  have reg: "registered ?w' = insert t (registered w)"
    by (simp add: registered_def f(3) dom_update)
  have pre: "prerequisites ?w' v = (if v = t then remdups ?ds else prerequisites w v)" for v
    by (simp add: prerequisites_def f(3) update_conv')
  from ok have dk: "distinct (map fst (task_to_dependencies w))"
    and dp: "\<And>v. distinct (prerequisites w v)"
    and dd: "\<And>p. distinct (dependents w p)"
    and dr: "\<And>p v. v \<in> set (dependents w p) \<Longrightarrow> v \<in> registered w \<and> p \<in> set (prerequisites w v)"
    by (simp_all add: graph_ok_def)
  show ?thesis
    unfolding graph_ok_def
  proof (intro conjI allI ballI)
    show "distinct (map fst (task_to_dependencies ?w'))"
      using dk by (simp add: f(3) distinct_update)
    show "distinct (prerequisites ?w' v)" for v
      using dp by (simp add: pre)
    show "distinct (dependents ?w' p)" for p
      using dd by (simp add: f(4) distinct_set_add)
    show "v \<in> registered ?w'" if "v \<in> set (dependents ?w' p)" for p v
      using that dr[of v p] by (auto simp: f(4) reg split: if_splits)
    show "p \<in> set (prerequisites ?w' v)" if "v \<in> set (dependents ?w' p)" for p v
    proof (cases "v = t")
      case True
      with that dr[of t p] False show ?thesis
        by (auto simp: f(4) pre split: if_splits)
    next
      case False
      with that dr[of v p] show ?thesis
        by (auto simp: f(4) pre split: if_splits)
    qed
  qed
qed

lemma graph_ok_schedule_all: "graph_ok w \<Longrightarrow> graph_ok (snd (schedule_all ts w))"
proof (induction ts arbitrary: w)
  case Nil
  then show ?case by simp
next
  case (Cons t ts)
  show ?case
  proof (cases "fst (schedule t w)")
    case (Returns u)
    then have "schedule_all (t # ts) w = schedule_all ts (snd (schedule t w))"
      by (cases "schedule t w") simp
    with Cons.IH[OF graph_ok_schedule[OF Cons.prems]] show ?thesis by simp
  next
    case (Raises e)
    then have "schedule_all (t # ts) w = (Raises e, snd (schedule t w))"
      by (cases "schedule t w") simp
    with graph_ok_schedule[OF Cons.prems] show ?thesis by simp
  qed
qed

lemma graph_ok_Scheduler_init: "graph_ok (snd (Scheduler_init ts objs))"
  unfolding Scheduler_init_def
  by (rule graph_ok_schedule_all)
     (simp add: graph_ok_def prerequisites_def dependents_def)

lemma cyclic_world_graph:
  "task_to_dependencies cyclic_world = [(''A'', [''C'']), (''B'', [''A'']), (''C'', [''B''])]"
  by (simp add: cyclic_world_def Scheduler_init_def schedule_def cyclic_tasks_def Task_init_def
        register_on_task_completed_def register_on_task_failed_def register_on_task_canceled_def
        Let_def)

lemma orphan_world_graph:
  "task_to_dependencies orphan_world = [(''B'', [''A''])]"
  by (simp add: orphan_world_def Scheduler_init_def schedule_def chain_tasks_def Task_init_def
        register_on_task_completed_def register_on_task_failed_def register_on_task_canceled_def
        Let_def)

text \<open>
  Claim C7. On a graph built by \<open>schedule\<close> that contains a dependency cycle, the
  first call of \<open>next\<close> on the generator raises the SchedulingException about circular
  dependencies. The check returns (it raises no KeyError), and what it returns is
  whether the number of tasks taken from the queue differs from the number of registered
  tasks; the first call raises exactly when it returns True.
\<close>

theorem C7_cycle_detected:
  assumes "graph_ok w"
  shows "(\<forall>us. dependency_cycle w us \<longrightarrow>
            next_ready_tasks Created w = (Raise circular, Finished, snd (has_cycles w)))
       \<and> (\<exists>n. processed_count w = Returns n
              \<and> fst (has_cycles w) = Returns (n \<noteq> length (task_to_dependencies w)))
       \<and> ((\<exists>e. fst (next_ready_tasks Created w) = Raise e)
            \<longleftrightarrow> fst (has_cycles w) = Returns True)"
proof (intro conjI allI impI)
  fix us assume "dependency_cycle w us"
  from dependency_cycle_stuck[OF this] has_cycles_stuck[OF assms]
  have "fst (has_cycles w) = Returns True" by blast
  then show "next_ready_tasks Created w = (Raise circular, Finished, snd (has_cycles w))"
    by (rule next_Created_raises)
next
  show r: "\<exists>n. processed_count w = Returns n
              \<and> fst (has_cycles w) = Returns (n \<noteq> length (task_to_dependencies w))"
    by (rule has_cycles_returns[OF assms])
  then obtain b where b: "fst (has_cycles w) = Returns b" by blast
  show "(\<exists>e. fst (next_ready_tasks Created w) = Raise e)
            \<longleftrightarrow> fst (has_cycles w) = Returns True"
  proof (cases b)
    case True
    with b next_Created_raises[of w] show ?thesis by simp
  next
    case False
    with b have "next_ready_tasks Created w = while_True (snd (has_cycles w))"
      by (cases "has_cycles w") simp
    with b False show ?thesis by (simp add: while_True_cases)
  qed
qed


theorem C7_witness:
  "graph_ok cyclic_world
   \<and> dependency_cycle cyclic_world [''A'', ''C'', ''B'']
   \<and> fst (next_ready_tasks Created cyclic_world) = Raise circular
   \<and> fst (has_cycles cyclic_world) = Returns True"
proof -
  have ok: "graph_ok cyclic_world"
    by (simp add: cyclic_world_def graph_ok_Scheduler_init)
  have cyc: "dependency_cycle cyclic_world [''A'', ''C'', ''B'']"
    by (simp add: dependency_cycle_def registered_def prerequisites_def cyclic_world_graph)
  note c7 = C7_cycle_detected[OF ok]
  from c7 cyc have n: "next_ready_tasks Created cyclic_world
                         = (Raise circular, Finished, snd (has_cycles cyclic_world))"
    by blast
  then have "\<exists>e. fst (next_ready_tasks Created cyclic_world) = Raise e" by simp
  with c7 have "fst (has_cycles cyclic_world) = Returns True" by blast
  with ok cyc n show ?thesis by simp
qed

text \<open>
  Claim C10. On a graph built by \<open>schedule\<close> in which a registered task has a
  dependency that is not registered, the first call of \<open>next\<close> raises the
  SchedulingException about circular dependencies, whether or not the graph has a cycle.
\<close>

theorem C10_unregistered_prerequisite:
  assumes "graph_ok w" "u \<in> registered w" "p \<in> set (prerequisites w u)" "p \<notin> registered w"
  shows "next_ready_tasks Created w = (Raise circular, Finished, snd (has_cycles w))"
proof -
  have "stuck w {u}" using assms(2-4) by (auto simp: stuck_def)
  from has_cycles_stuck[OF assms(1) this] show ?thesis
    by (intro next_Created_raises) simp
qed


theorem C10_witness:
  "graph_ok orphan_world
   \<and> ''B'' \<in> registered orphan_world
   \<and> ''A'' \<in> set (prerequisites orphan_world ''B'')
   \<and> ''A'' \<notin> registered orphan_world
   \<and> (\<forall>us. \<not> dependency_cycle orphan_world us)
   \<and> fst (next_ready_tasks Created orphan_world) = Raise circular"
proof -
  have ok: "graph_ok orphan_world"
    by (simp add: orphan_world_def graph_ok_Scheduler_init)
  have r: "''B'' \<in> registered orphan_world" "''A'' \<in> set (prerequisites orphan_world ''B'')"
    "''A'' \<notin> registered orphan_world"
    by (simp_all add: registered_def prerequisites_def orphan_world_graph)
  have nc: "\<not> dependency_cycle orphan_world us" for us
  proof
    assume c: "dependency_cycle orphan_world us"
    then obtain u rest where us: "us = u # rest" by (cases us) (auto simp: dependency_cycle_def)
    obtain v vs where rv: "rest @ [u] = v # vs" by (cases "rest @ [u]") auto
    from c have p: "dependency_path orphan_world (u # v # vs)"
      by (simp add: dependency_cycle_def us rv)
    then have u: "u = ''B''" and v: "v = ''A''" and p': "dependency_path orphan_world (v # vs)"
      by (simp_all add: registered_def prerequisites_def orphan_world_graph split: if_splits)
    show False
    proof (cases vs)
      case Nil
      with rv u v show False by (cases rest) auto
    next
      case (Cons x xs)
      with p' v show False by (simp add: registered_def orphan_world_graph)
    qed
  qed
  from C10_unregistered_prerequisite[OF ok r] ok r nc show ?thesis by simp
qed



section \<open>executor.py: the loop of run\<close>

text \<open>
  The pools of an executor while \<open>run\<close> iterates: one pool per tag, each made by
  \<open>__ensure_thread_pool\<close> (\<open>max_workers\<close> is \<open>workers_per_tag\<close>, the thread name
  prefix is the tag) and none shut down. A new executor has no pool.
\<close>

definition pools_ok :: "executor \<Rightarrow> bool" where
  "pools_ok ex \<longleftrightarrow>
     distinct (map fst (tag_to_thread_pool ex))
     \<and> (\<forall>(tg, p)\<in>set (tag_to_thread_pool ex).
           max_workers p = workers_per_tag ex \<and> thread_name_prefix p = tg
           \<and> shutdown_wait p = None)"

text \<open>The work submitted to the pool of a tag so far, and the tags that have a pool.\<close>

definition pool_items :: "executor \<Rightarrow> string \<Rightarrow> task_ref list" where
  "pool_items ex tg =
     (case map_of (tag_to_thread_pool ex) tg of None \<Rightarrow> [] | Some p \<Rightarrow> work_items p)"

definition pool_tags :: "executor \<Rightarrow> string set" where
  "pool_tags ex = fst ` set (tag_to_thread_pool ex)"

lemma while_True_tag [simp]: "tag (tasks (snd (snd (while_True w))) t) = tag (tasks w t)"
  by (simp add: while_True_cases mark_as_scheduled_def)

lemma next_ready_tasks_tag [simp]:
  "tag (tasks (snd (snd (next_ready_tasks g w))) t) = tag (tasks w t)"
proof (cases g)
  case Created
  have "tag (tasks (snd (snd (while_True (snd (has_cycles w))))) t) = tag (tasks w t)"
    by (simp only: while_True_tag has_cycles_frame)
  then show ?thesis using Created
    by (cases "has_cycles w") (auto split: outcome.splits bool.splits)
next
  case (Suspended ts)
  then show ?thesis by (cases ts) (simp_all add: mark_as_scheduled_def)
qed simp_all

lemma ensure_thread_pool_new:
  assumes "0 < workers_per_tag ex" "tg \<notin> pool_tags ex"
  shows "ensure_thread_pool tg ex =
           (Returns (),
            ex\<lparr>tag_to_thread_pool := tag_to_thread_pool ex @
                 [(tg, \<lparr>max_workers = workers_per_tag ex, thread_name_prefix = tg,
                        work_items = [], shutdown_wait = None\<rparr>)]\<rparr>)"
  using assms by (simp add: ensure_thread_pool_def ThreadPoolExecutor_def pool_tags_def)

lemma ensure_thread_pool_old:
  "tg \<in> pool_tags ex \<Longrightarrow> ensure_thread_pool tg ex = (Returns (), ex)"
  by (simp add: ensure_thread_pool_def pool_tags_def)

lemma map_of_not_key: "tg \<notin> fst ` set al \<Longrightarrow> map_of al tg = None"
  by (simp add: map_of_eq_None_iff)

lemma pools_ok_ensure:
  assumes "0 < workers_per_tag ex" "pools_ok ex"
  shows "fst (ensure_thread_pool tg ex) = Returns ()"
    and "pools_ok (snd (ensure_thread_pool tg ex))"
    and "pool_tags (snd (ensure_thread_pool tg ex)) = insert tg (pool_tags ex)"
    and "pool_items (snd (ensure_thread_pool tg ex)) = pool_items ex"
    and "workers_per_tag (snd (ensure_thread_pool tg ex)) = workers_per_tag ex"
proof -
  show "fst (ensure_thread_pool tg ex) = Returns ()"
    using assms(1) by (cases "tg \<in> pool_tags ex")
      (simp_all add: ensure_thread_pool_new ensure_thread_pool_old)
  show "pools_ok (snd (ensure_thread_pool tg ex))"
  proof (cases "tg \<in> pool_tags ex")
    case True
    with assms(2) show ?thesis by (simp add: ensure_thread_pool_old)
  next
    case False
    with assms show ?thesis
      by (simp add: ensure_thread_pool_new[OF assms(1) False] pools_ok_def pool_tags_def)
  qed
  show "pool_tags (snd (ensure_thread_pool tg ex)) = insert tg (pool_tags ex)"
  proof (cases "tg \<in> pool_tags ex")
    case True
    then show ?thesis by (auto simp: ensure_thread_pool_old)
  next
    case False
    show ?thesis
      by (simp add: ensure_thread_pool_new[OF assms(1) False] pool_tags_def)
  qed
  show "pool_items (snd (ensure_thread_pool tg ex)) = pool_items ex"
  proof (cases "tg \<in> pool_tags ex")
    case True
    then show ?thesis by (simp add: ensure_thread_pool_old)
  next
    case False
    then have n: "map_of (tag_to_thread_pool ex) tg = None"
      by (simp add: pool_tags_def map_of_not_key)
    show ?thesis
    proof
      fix tg'
      show "pool_items (snd (ensure_thread_pool tg ex)) tg' = pool_items ex tg'"
        using n by (cases "map_of (tag_to_thread_pool ex) tg'")
          (simp_all add: ensure_thread_pool_new[OF assms(1) False] pool_items_def map_add_def)
    qed
  qed
  show "workers_per_tag (snd (ensure_thread_pool tg ex)) = workers_per_tag ex"
    using assms(1) by (cases "tg \<in> pool_tags ex")
      (simp_all add: ensure_thread_pool_new ensure_thread_pool_old)
qed

lemma set_update_cases:
  "(k', v') \<in> set (AList.update k v al) \<Longrightarrow> (k', v') \<in> set al \<or> (k' = k \<and> v' = v)"
  by (induction al) (auto split: if_splits)

lemma pools_ok_submit:
  assumes "pools_ok ex" "tg \<in> pool_tags ex"
  shows "fst (submit tg t ex) = Returns ()"
    and "pools_ok (snd (submit tg t ex))"
    and "pool_tags (snd (submit tg t ex)) = pool_tags ex"
    and "pool_items (snd (submit tg t ex)) tg' =
           (if tg' = tg then pool_items ex tg @ [t] else pool_items ex tg')"
    and "workers_per_tag (snd (submit tg t ex)) = workers_per_tag ex"
    and "map fst (tag_to_thread_pool (snd (submit tg t ex))) = map fst (tag_to_thread_pool ex)"
proof -
  have "map_of (tag_to_thread_pool ex) tg \<noteq> None"
    using assms(2) by (simp add: pool_tags_def map_of_eq_None_iff)
  then obtain p where p: "map_of (tag_to_thread_pool ex) tg = Some p" by blast
  then have mem: "(tg, p) \<in> set (tag_to_thread_pool ex)" by (rule map_of_SomeD)
  from assms(1) have all: "\<And>tg' q. (tg', q) \<in> set (tag_to_thread_pool ex) \<Longrightarrow>
      max_workers q = workers_per_tag ex \<and> thread_name_prefix q = tg' \<and> shutdown_wait q = None"
    unfolding pools_ok_def by blast
  from all[OF mem] have pp: "max_workers p = workers_per_tag ex" "thread_name_prefix p = tg"
    "shutdown_wait p = None"
    by simp_all
  let ?p' = "p\<lparr>work_items := work_items p @ [t]\<rparr>"
  have s: "submit tg t ex =
      (Returns (), ex\<lparr>tag_to_thread_pool := AList.update tg ?p' (tag_to_thread_pool ex)\<rparr>)"
    using p pp by (simp add: submit_def pool_submit_def)
  show "fst (submit tg t ex) = Returns ()" by (simp add: s)
  have keys: "map fst (AList.update tg ?p' (tag_to_thread_pool ex)) = map fst (tag_to_thread_pool ex)"
    using assms(2) by (simp add: update_keys pool_tags_def)
  show "map fst (tag_to_thread_pool (snd (submit tg t ex))) = map fst (tag_to_thread_pool ex)"
    by (simp add: s keys)
  have "set (map fst (AList.update tg ?p' (tag_to_thread_pool ex)))
          = set (map fst (tag_to_thread_pool ex))"
    by (simp only: keys)
  then show "pool_tags (snd (submit tg t ex)) = pool_tags ex"
    by (simp add: s pool_tags_def)
  show "pool_items (snd (submit tg t ex)) tg' =
           (if tg' = tg then pool_items ex tg @ [t] else pool_items ex tg')"
    using p by (simp add: s pool_items_def update_conv')
  show "workers_per_tag (snd (submit tg t ex)) = workers_per_tag ex" by (simp add: s)
  have upd: "(tg', q) \<in> set (tag_to_thread_pool ex) \<or> (tg' = tg \<and> q = ?p')"
    if "(tg', q) \<in> set (AList.update tg ?p' (tag_to_thread_pool ex))" for tg' q
    using that by (rule set_update_cases)
  have "max_workers q = workers_per_tag ex \<and> thread_name_prefix q = tg' \<and> shutdown_wait q = None"
    if "(tg', q) \<in> set (AList.update tg ?p' (tag_to_thread_pool ex))" for tg' q
    using upd[OF that] all[of tg' q] pp by auto
  moreover have "distinct (map fst (AList.update tg ?p' (tag_to_thread_pool ex)))"
    using assms(1) by (simp only: keys) (simp add: pools_ok_def)
  ultimately show "pools_ok (snd (submit tg t ex))"
    unfolding pools_ok_def by (simp add: s) blast
qed


text \<open>
  The loop of \<open>run\<close> ends: each yield either lowers the number of PENDING keys or
  shortens the list the generator still holds.
\<close>

definition pending_count :: "world \<Rightarrow> nat" where
  "pending_count w =
     length (filter (\<lambda>t. task_status (tasks w t) = PENDING) (map fst (task_to_dependencies w)))"

fun batch_length :: "generator \<Rightarrow> nat" where
  "batch_length (Suspended ts) = length ts"
| "batch_length g = 0"

lemma length_filter_mono:
  "(\<And>x. x \<in> set xs \<Longrightarrow> Q x \<Longrightarrow> P x) \<Longrightarrow> length (filter Q xs) \<le> length (filter P xs)"
  by (induction xs) auto

lemma length_filter_less:
  assumes "\<And>x. x \<in> set xs \<Longrightarrow> Q x \<Longrightarrow> P x" "t \<in> set xs" "P t" "\<not> Q t"
  shows "length (filter Q xs) < length (filter P xs)"
  using assms
proof (induction xs)
  case Nil
  then show ?case by simp
next
  case (Cons x xs)
  have le: "length (filter Q xs) \<le> length (filter P xs)"
    using Cons.prems(1) by (intro length_filter_mono) auto
  show ?case
  proof (cases "x = t")
    case True
    with le Cons.prems show ?thesis by auto
  next
    case False
    with Cons.prems have "t \<in> set xs" by simp
    from Cons.IH[OF _ this Cons.prems(3,4)] Cons.prems(1)
    have "length (filter Q xs) < length (filter P xs)" by auto
    with Cons.prems(1)[of x] show ?thesis by auto
  qed
qed

lemma pending_count_mark_le: "pending_count (mark_as_scheduled t w) \<le> pending_count w"
  unfolding pending_count_def mark_as_scheduled_def
  by (simp, intro length_filter_mono) (auto split: if_splits)

lemma pending_count_mark_less:
  assumes "t \<in> registered w" "task_status (tasks w t) = PENDING"
  shows "pending_count (mark_as_scheduled t w) < pending_count w"
proof -
  have "length (filter (\<lambda>u. task_status (tasks (mark_as_scheduled t w) u) = PENDING)
                  (map fst (task_to_dependencies w)))
        < length (filter (\<lambda>u. task_status (tasks w u) = PENDING)
                  (map fst (task_to_dependencies w)))"
    by (rule length_filter_less[where t = t])
       (use assms in \<open>auto simp: registered_def mark_as_scheduled_def split: if_splits\<close>)
  then show ?thesis
    by (simp add: pending_count_def mark_as_scheduled_def)
qed

lemma pending_count_has_cycles [simp]: "pending_count (snd (has_cycles w)) = pending_count w"
  by (simp add: pending_count_def)

lemma while_True_yield_less:
  assumes "while_True w = (Yield t, g1, w1)"
  shows "pending_count w1 < pending_count w"
proof -
  from assms have ne: "collect_ready w \<noteq> []" and t: "t = hd (collect_ready w)"
    and w1: "w1 = mark_as_scheduled t w"
    by (auto simp: while_True_cases split: if_splits)
  from ne t have "t \<in> set (collect_ready w)" by simp
  then have "t \<in> registered w" "task_status (tasks w t) = PENDING"
    by (auto simp: collect_ready_iff registered_def intro: rev_image_eqI)
  from pending_count_mark_less[OF this] w1 show ?thesis by simp
qed

lemma next_yield_decreases:
  assumes "next_ready_tasks g w = (Yield t, g1, w1)"
  shows "pending_count w1 < pending_count w
         \<or> (pending_count w1 = pending_count w \<and> batch_length g1 < batch_length g)
         \<or> (pending_count w1 \<le> pending_count w \<and> batch_length g1 < batch_length g)"
proof (cases g)
  case Created
  with assms have "while_True (snd (has_cycles w)) = (Yield t, g1, w1)"
    by (cases "has_cycles w") (auto split: outcome.splits bool.splits)
  from while_True_yield_less[OF this] show ?thesis by simp
next
  case (Suspended ts)
  show ?thesis
  proof (cases ts)
    case Nil
    with Suspended assms while_True_yield_less show ?thesis by auto
  next
    case (Cons u us)
    with Suspended assms pending_count_mark_le[of u w] show ?thesis by auto
  qed
next
  case Waiting
  with assms while_True_yield_less show ?thesis by auto
next
  case Finished
  with assms show ?thesis by simp
qed

lemma run_round_Iterating:
  assumes "run_round ex g w = (Iterating, ex1, g1, w1)"
  shows "\<exists>t. next_ready_tasks g w = (Yield t, g1, w1)"
  using assms unfolding run_round_def
  by (auto split: prod.splits next_result.splits outcome.splits)

lemma run_round_decreases:
  assumes "run_round ex g w = (Iterating, ex1, g1, w1)"
  shows "((ex1, g1, w1), (ex, g, w))
          \<in> measures [\<lambda>(ex, g, w). pending_count w, \<lambda>(ex, g, w). batch_length g]"
proof -
  from run_round_Iterating[OF assms] obtain t where "next_ready_tasks g w = (Yield t, g1, w1)"
    by blast
  from next_yield_decreases[OF this] show ?thesis by auto
qed

text \<open>
  The \<open>for\<close> loop of \<open>Executor.run\<close>, from a generator state on, up to the point where
  the calling thread leaves \<open>run\<close> or is parked in \<open>wait()\<close>; a parked thread goes
  on, once notified, with \<open>run_from ex Waiting\<close> on the world as the workers left it.
\<close>

function run_from ::
  "executor \<Rightarrow> generator \<Rightarrow> world \<Rightarrow> dispatcher \<times> executor \<times> generator \<times> world" where
  "run_from ex g w =
     (case run_round ex g w of
        (d, ex1, g1, w1) \<Rightarrow> if d = Iterating then run_from ex1 g1 w1 else (d, ex1, g1, w1))"
  by pat_completeness auto
termination
  apply (relation "measures [\<lambda>(ex, g, w). pending_count w, \<lambda>(ex, g, w). batch_length g]")
   apply simp
  apply (rule run_round_decreases)
  apply simp
  done

definition run :: "executor \<Rightarrow> world \<Rightarrow> dispatcher \<times> executor \<times> generator \<times> world" where
  "run ex w = run_from ex Created w"


text \<open>
  The tasks yielded between two states, read from the trace: the generator marks a task
  SCHEDULED exactly when it yields it.
\<close>

fun yielded_task :: "event \<Rightarrow> task_ref list" where
  "yielded_task (Status_set t SCHEDULED) = [t]"
| "yielded_task e = []"

definition yielded :: "world \<Rightarrow> world \<Rightarrow> task_ref list" where
  "yielded w w' = concat (map yielded_task (events_of w w'))"

text \<open>Every pool is one the executor made, and \<open>shutdown(wait=True)\<close> was called on it.\<close>

definition all_shut_down :: "executor \<Rightarrow> bool" where
  "all_shut_down ex \<longleftrightarrow>
     distinct (map fst (tag_to_thread_pool ex))
     \<and> (\<forall>(tg, p)\<in>set (tag_to_thread_pool ex).
           max_workers p = workers_per_tag ex \<and> thread_name_prefix p = tg
           \<and> shutdown_wait p = Some True)"

fun next_events :: "next_result \<Rightarrow> event list" where
  "next_events (Yield t) = [Status_set t SCHEDULED]"
| "next_events Block = [Wait_called]"
| "next_events r = []"

lemma while_True_trace:
  "trace (snd (snd (while_True w))) = trace w @ next_events (fst (while_True w))"
  by (simp add: while_True_cases mark_as_scheduled_def)

lemma next_ready_tasks_trace:
  "trace (snd (snd (next_ready_tasks g w))) = trace w @ next_events (fst (next_ready_tasks g w))"
proof (cases g)
  case Created
  obtain r b where hc: "has_cycles w = (r, b)" by (cases "has_cycles w")
  have tb: "trace b = trace w" using has_cycles_frame(3)[of w] hc by simp
  show ?thesis
  proof (cases r)
    case (Returns c)
    then show ?thesis using Created hc tb by (cases c) (simp_all add: while_True_trace)
  next
    case (Raises e)
    then show ?thesis using Created hc tb by simp
  qed
next
  case (Suspended ts)
  then show ?thesis by (cases ts) (simp_all add: mark_as_scheduled_def while_True_trace)
qed (simp_all add: while_True_trace)

lemma shutdown_simps [simp]:
  "workers_per_tag (shutdown b ex) = workers_per_tag ex"
  "map fst (tag_to_thread_pool (shutdown b ex)) = map fst (tag_to_thread_pool ex)"
  "pool_tags (shutdown b ex) = pool_tags ex"
  by (simp_all add: shutdown_def pool_tags_def case_prod_beta image_image comp_def)

lemma map_of_shutdown:
  "map_of (tag_to_thread_pool (shutdown b ex)) tg
     = map_option (pool_shutdown b) (map_of (tag_to_thread_pool ex) tg)"
  by (simp add: shutdown_def map_of_map)

lemma pool_items_shutdown [simp]: "pool_items (shutdown b ex) = pool_items ex"
  by (auto simp: fun_eq_iff pool_items_def map_of_shutdown pool_shutdown_def split: option.splits)

lemma all_shut_down_shutdown: "pools_ok ex \<Longrightarrow> all_shut_down (shutdown True ex)"
  unfolding all_shut_down_def pools_ok_def
  by (simp, simp add: shutdown_def pool_shutdown_def) force

lemma run_round_cases:
  assumes "0 < workers_per_tag ex" "pools_ok ex"
  shows "run_round ex g w =
     (case next_ready_tasks g w of
        (Yield t, g1, w1) \<Rightarrow>
          (Iterating,
           snd (submit (tag (tasks w t)) t (snd (ensure_thread_pool (tag (tasks w t)) ex))),
           g1, w1)
      | (StopIteration, g1, w1) \<Rightarrow> (Left (Returns ()), shutdown True ex, g1, w1)
      | (Raise e, g1, w1) \<Rightarrow> (Left (Raises e), shutdown True ex, g1, w1)
      | (Block, g1, w1) \<Rightarrow> (Parked, ex, g1, w1))"
proof (cases "next_ready_tasks g w")
  case (fields r g1 w1)
  show ?thesis
  proof (cases r)
    case (Yield t)
    have tg: "tag (tasks w1 t) = tag (tasks w t)"
      using next_ready_tasks_tag[of g w t] fields by simp
    let ?tg = "tag (tasks w t)"
    let ?e = "ensure_thread_pool ?tg ex"
    note e = pools_ok_ensure[OF assms, of ?tg]
    have "?tg \<in> pool_tags (snd ?e)" by (simp add: e(3))
    note sb = pools_ok_submit[OF e(2) this, of t]
    obtain ex1 where e1: "?e = (Returns (), ex1)"
      using e(1) by (cases ?e) auto
    then have x1: "ex1 = snd ?e" by simp
    obtain ex2 where s2: "submit ?tg t ex1 = (Returns (), ex2)"
      using sb(1) by (cases "submit ?tg t ex1") (auto simp: x1)
    then have x2: "ex2 = snd (submit ?tg t (snd ?e))" by (simp add: x1)
    show ?thesis
      by (simp add: run_round_def fields Yield tg e1 s2 x2[symmetric])
  qed (simp_all add: run_round_def fields)
qed

lemma run_round_yield:
  assumes "0 < workers_per_tag ex" "pools_ok ex" "next_ready_tasks g w = (Yield t, g1, w1)"
  shows "\<exists>ex1. run_round ex g w = (Iterating, ex1, g1, w1)
           \<and> pool_tags ex1 = insert (tag (tasks w t)) (pool_tags ex)
           \<and> (\<forall>tg. pool_items ex1 tg =
                 (if tg = tag (tasks w t) then pool_items ex tg @ [t] else pool_items ex tg))
           \<and> map fst (tag_to_thread_pool ex1) =
                 (if tag (tasks w t) \<in> pool_tags ex then map fst (tag_to_thread_pool ex)
                  else map fst (tag_to_thread_pool ex) @ [tag (tasks w t)])
           \<and> workers_per_tag ex1 = workers_per_tag ex
           \<and> pools_ok ex1"
proof -
  let ?tg = "tag (tasks w t)"
  let ?e = "ensure_thread_pool ?tg ex"
  note e = pools_ok_ensure[OF assms(1,2), of ?tg]
  have "?tg \<in> pool_tags (snd ?e)" by (simp add: e(3))
  note sb = pools_ok_submit[OF e(2) this, of t]
  have keys: "map fst (tag_to_thread_pool (snd ?e)) =
                 (if ?tg \<in> pool_tags ex then map fst (tag_to_thread_pool ex)
                  else map fst (tag_to_thread_pool ex) @ [?tg])"
    using assms(1)
    by (cases "?tg \<in> pool_tags ex") (simp_all add: ensure_thread_pool_new ensure_thread_pool_old)
  have "run_round ex g w = (Iterating, snd (submit ?tg t (snd ?e)), g1, w1)"
    by (simp add: run_round_cases[OF assms(1,2)] assms(3))
  moreover have "pool_tags (snd (submit ?tg t (snd ?e))) = insert ?tg (pool_tags ex)"
    by (simp add: sb(3) e(3))
  moreover have "\<forall>tg. pool_items (snd (submit ?tg t (snd ?e))) tg =
                 (if tg = ?tg then pool_items ex tg @ [t] else pool_items ex tg)"
    by (simp add: sb(4) e(4))
  moreover have "map fst (tag_to_thread_pool (snd (submit ?tg t (snd ?e)))) =
                 (if ?tg \<in> pool_tags ex then map fst (tag_to_thread_pool ex)
                  else map fst (tag_to_thread_pool ex) @ [?tg])"
    by (simp only: sb(6) keys)
  moreover have "workers_per_tag (snd (submit ?tg t (snd ?e))) = workers_per_tag ex"
    by (simp add: sb(5) e(5))
  ultimately show ?thesis using sb(2) by blast
qed


lemma yielded_step:
  assumes "trace w1 = trace w @ es" "trace w' = trace w1 @ es'"
  shows "yielded w w' = concat (map yielded_task es) @ yielded w1 w'"
  using assms by (simp add: yielded_def events_of_def)

lemma run_from_unfold:
  "run_from ex g w =
     (if fst (run_round ex g w) = Iterating
      then run_from (fst (snd (run_round ex g w))) (fst (snd (snd (run_round ex g w))))
             (snd (snd (snd (run_round ex g w))))
      else run_round ex g w)"
  by (subst run_from.simps) (simp add: case_prod_beta)

lemma next_tags:
  "(\<lambda>t. tag (tasks (snd (snd (next_ready_tasks g w))) t)) = (\<lambda>t. tag (tasks w t))"
  by (simp add: fun_eq_iff)

text \<open>
  What a run of the loop has done when the thread stops: the pool of each tag received
  exactly the yielded tasks of that tag, in order; pools exist for the old tags and the
  tags of the yielded tasks; and the pools are all open if the thread is parked, all shut
  down with \<open>wait=True\<close> if it has left \<open>run\<close>.
\<close>

definition burst_ok ::
  "executor \<Rightarrow> world \<Rightarrow> dispatcher \<times> executor \<times> generator \<times> world \<Rightarrow> bool" where
  "burst_ok ex w r =
     (case r of
        (d, ex', g', w') \<Rightarrow>
          d \<noteq> Iterating
        \<and> (\<forall>tg. pool_items ex' tg =
                pool_items ex tg @ filter (\<lambda>t. tag (tasks w t) = tg) (yielded w w'))
        \<and> pool_tags ex' = pool_tags ex \<union> (\<lambda>t. tag (tasks w t)) ` set (yielded w w')
        \<and> workers_per_tag ex' = workers_per_tag ex
        \<and> (d = Parked \<longrightarrow> pools_ok ex')
        \<and> (d \<noteq> Parked \<longrightarrow> all_shut_down ex')
        \<and> (d = Left (Returns ()) \<longrightarrow> g' = Finished)
        \<and> (\<exists>es. trace w' = trace w @ es))"

lemma yielded_next:
  assumes "next_ready_tasks g w = (r, g1, w1)"
  shows "yielded w w1 = (case r of Yield t \<Rightarrow> [t] | _ \<Rightarrow> [])"
proof -
  have "trace w1 = trace w @ next_events r"
    using next_ready_tasks_trace[of g w] assms by simp
  then show ?thesis
    by (cases r) (simp_all add: yielded_def events_of_def)
qed

lemma next_StopIteration_Finished:
  "next_ready_tasks g w = (StopIteration, g1, w1) \<Longrightarrow> g1 = Finished"
proof (cases g)
  case Created
  assume "next_ready_tasks g w = (StopIteration, g1, w1)"
  with Created show ?thesis
    by (cases "has_cycles w")
       (auto split: outcome.splits bool.splits if_splits simp: while_True_cases)
next
  case (Suspended ts)
  assume "next_ready_tasks g w = (StopIteration, g1, w1)"
  with Suspended show ?thesis
    by (cases ts) (auto simp: while_True_cases split: if_splits)
qed (auto simp: while_True_cases split: if_splits)

lemma run_from_burst:
  assumes "0 < workers_per_tag ex" "pools_ok ex"
  shows "burst_ok ex w (run_from ex g w)"
  using assms
proof (induction ex g w rule: run_from.induct)
  case (1 ex g w)
  obtain r g1 w1 where nx: "next_ready_tasks g w = (r, g1, w1)"
    by (cases "next_ready_tasks g w")
  have tr1: "trace w1 = trace w @ next_events r"
    using next_ready_tasks_trace[of g w] nx by simp
  have tags: "\<And>t. tag (tasks w1 t) = tag (tasks w t)"
    using next_ready_tasks_tag[of g w] nx by simp
  note rc = run_round_cases[OF "1.prems", of g w]
  show ?case
  proof (cases r)
    case (Yield t)
    from run_round_yield[OF "1.prems" nx[unfolded Yield]] obtain ex1 where
      rr: "run_round ex g w = (Iterating, ex1, g1, w1)"
      and tg1: "pool_tags ex1 = insert (tag (tasks w t)) (pool_tags ex)"
      and it1: "\<forall>tg. pool_items ex1 tg =
                 (if tg = tag (tasks w t) then pool_items ex tg @ [t] else pool_items ex tg)"
      and wp1: "workers_per_tag ex1 = workers_per_tag ex"
      and ok1: "pools_ok ex1"
      by blast
    have rf: "run_from ex g w = run_from ex1 g1 w1"
      by (subst run_from.simps) (simp add: rr)
    from "1.prems"(1) wp1 have pos1: "0 < workers_per_tag ex1" by simp
    have ih: "burst_ok ex1 w1 (run_from ex1 g1 w1)"
      by (rule "1.IH"[OF rr[symmetric] refl refl refl pos1 ok1])
    obtain d ex' g' w' where res: "run_from ex1 g1 w1 = (d, ex', g', w')"
      by (cases "run_from ex1 g1 w1")
    from ih res have b: "d \<noteq> Iterating"
      "\<forall>tg. pool_items ex' tg =
                pool_items ex1 tg @ filter (\<lambda>t. tag (tasks w1 t) = tg) (yielded w1 w')"
      "pool_tags ex' = pool_tags ex1 \<union> (\<lambda>t. tag (tasks w1 t)) ` set (yielded w1 w')"
      "workers_per_tag ex' = workers_per_tag ex1"
      "d = Parked \<longrightarrow> pools_ok ex'" "d \<noteq> Parked \<longrightarrow> all_shut_down ex'"
      "d = Left (Returns ()) \<longrightarrow> g' = Finished"
      and "\<exists>es. trace w' = trace w1 @ es"
      by (simp_all add: burst_ok_def)
    then obtain es where es: "trace w' = trace w1 @ es" by blast
    have y: "yielded w w' = t # yielded w1 w'"
      using yielded_step[OF tr1 es] Yield by simp
    have tr: "\<exists>es. trace w' = trace w @ es"
      using tr1 es by simp
    show ?thesis
      unfolding rf res burst_ok_def
      using b tg1 it1 wp1 y tags tr by (auto simp: image_iff)
  next
    case StopIteration
    with nx rc have rr: "run_round ex g w = (Left (Returns ()), shutdown True ex, g1, w1)" by simp
    have rf: "run_from ex g w = (Left (Returns ()), shutdown True ex, g1, w1)"
      by (subst run_from.simps) (simp add: rr)
    have "yielded w w1 = []" using yielded_next[OF nx] StopIteration by simp
    moreover have "g1 = Finished" using nx StopIteration next_StopIteration_Finished by blast
    ultimately show ?thesis
      unfolding rf burst_ok_def
      using all_shut_down_shutdown[OF "1.prems"(2)] tr1 by simp
  next
    case (Raise e)
    with nx rc have rr: "run_round ex g w = (Left (Raises e), shutdown True ex, g1, w1)" by simp
    have rf: "run_from ex g w = (Left (Raises e), shutdown True ex, g1, w1)"
      by (subst run_from.simps) (simp add: rr)
    have "yielded w w1 = []" using yielded_next[OF nx] Raise by simp
    then show ?thesis
      unfolding rf burst_ok_def
      using all_shut_down_shutdown[OF "1.prems"(2)] tr1 by simp
  next
    case Block
    with nx rc have rr: "run_round ex g w = (Parked, ex, g1, w1)" by simp
    have rf: "run_from ex g w = (Parked, ex, g1, w1)"
      by (subst run_from.simps) (simp add: rr)
    have "yielded w w1 = []" using yielded_next[OF nx] Block by simp
    then show ?thesis
      unfolding rf burst_ok_def
      using "1.prems"(2) tr1 by simp
  qed
qed


lemma pools_ok_Executor_init: "pools_ok (Executor_init n)"
  by (simp add: pools_ok_def Executor_init_def)

text \<open>
  Claim C9. For an executor with a positive \<open>workers_per_tag\<close> whose pools are open:
  a round of the loop of \<open>run\<close> that gets a task from the generator submits it to the
  pool of the task's tag, creating that pool (with \<open>max_workers = workers_per_tag\<close>)
  only when the tag has none, and leaves every other pool as it was; the round in which
  the generator ends calls \<open>shutdown(wait=True)\<close> on every pool; and over a whole run
  of the loop the pools receive exactly the yielded tasks of their tags.
\<close>

theorem C9_run_submits_and_shuts_down:
  assumes "0 < workers_per_tag ex" "pools_ok ex"
  shows "(\<forall>t g1 w1. next_ready_tasks g w = (Yield t, g1, w1) \<longrightarrow>
            (\<exists>ex1. run_round ex g w = (Iterating, ex1, g1, w1)
               \<and> pool_tags ex1 = insert (tag (tasks w t)) (pool_tags ex)
               \<and> (\<forall>tg. pool_items ex1 tg =
                     (if tg = tag (tasks w t) then pool_items ex tg @ [t] else pool_items ex tg))
               \<and> map fst (tag_to_thread_pool ex1) =
                     (if tag (tasks w t) \<in> pool_tags ex then map fst (tag_to_thread_pool ex)
                      else map fst (tag_to_thread_pool ex) @ [tag (tasks w t)])
               \<and> workers_per_tag ex1 = workers_per_tag ex
               \<and> pools_ok ex1))
       \<and> (\<forall>g1 w1. next_ready_tasks g w = (StopIteration, g1, w1) \<longrightarrow>
            run_round ex g w = (Left (Returns ()), shutdown True ex, g1, w1))
       \<and> all_shut_down (shutdown True ex)
       \<and> pool_tags (shutdown True ex) = pool_tags ex
       \<and> burst_ok ex w (run_from ex g w)"
proof (intro conjI allI impI)
  fix t g1 w1 assume "next_ready_tasks g w = (Yield t, g1, w1)"
  from run_round_yield[OF assms this]
  show "\<exists>ex1. run_round ex g w = (Iterating, ex1, g1, w1)
               \<and> pool_tags ex1 = insert (tag (tasks w t)) (pool_tags ex)
               \<and> (\<forall>tg. pool_items ex1 tg =
                     (if tg = tag (tasks w t) then pool_items ex tg @ [t] else pool_items ex tg))
               \<and> map fst (tag_to_thread_pool ex1) =
                     (if tag (tasks w t) \<in> pool_tags ex then map fst (tag_to_thread_pool ex)
                      else map fst (tag_to_thread_pool ex) @ [tag (tasks w t)])
               \<and> workers_per_tag ex1 = workers_per_tag ex
               \<and> pools_ok ex1" .
next
  fix g1 w1 assume "next_ready_tasks g w = (StopIteration, g1, w1)"
  then show "run_round ex g w = (Left (Returns ()), shutdown True ex, g1, w1)"
    by (simp add: run_round_cases[OF assms])
next
  show "all_shut_down (shutdown True ex)" by (rule all_shut_down_shutdown[OF assms(2)])
  show "pool_tags (shutdown True ex) = pool_tags ex" by simp
  show "burst_ok ex w (run_from ex g w)" by (rule run_from_burst[OF assms])
qed

theorem C9_witness:
  "0 < workers_per_tag (Executor_init 3)
   \<and> pools_ok (Executor_init 3)
   \<and> fst (next_ready_tasks Created chain_world) = Yield ''A''
   \<and> fst (run_round (Executor_init 3) Created chain_world) = Iterating
   \<and> pool_items (fst (snd (run_round (Executor_init 3) Created chain_world))) ''io'' = [''A'']
   \<and> pool_tags (fst (snd (run_round (Executor_init 3) Created chain_world))) = {''io''}
   \<and> pools_ok (fst (snd (run_round (Executor_init 3) Created chain_world)))"
proof -
  have pos: "0 < workers_per_tag (Executor_init 3)" by (simp add: Executor_init_def)
  note ok = pools_ok_Executor_init[of 3]
  have nx: "next_ready_tasks Created chain_world
              = (Yield ''A'', fst (snd (next_ready_tasks Created chain_world)),
                 snd (snd (next_ready_tasks Created chain_world)))"
    using chain_next by (simp add: prod_eq_iff)
  have tg: "tag (tasks chain_world ''A'') = ''io''"
    by (simp add: chain_world_tasks Task_init_def)
  have e: "pool_items (Executor_init 3) = (\<lambda>tg. [])" "pool_tags (Executor_init 3) = {}"
    by (simp_all add: pool_items_def pool_tags_def Executor_init_def fun_eq_iff)
  from C9_run_submits_and_shuts_down[OF pos ok, of Created chain_world] nx
  obtain ex1 where "run_round (Executor_init 3) Created chain_world
        = (Iterating, ex1, fst (snd (next_ready_tasks Created chain_world)),
           snd (snd (next_ready_tasks Created chain_world)))"
    "pool_tags ex1 = insert (tag (tasks chain_world ''A'')) (pool_tags (Executor_init 3))"
    "\<forall>tg. pool_items ex1 tg =
        (if tg = tag (tasks chain_world ''A'') then pool_items (Executor_init 3) tg @ [''A'']
         else pool_items (Executor_init 3) tg)"
    "pools_ok ex1"
    by blast
  with pos ok chain_next tg e show ?thesis by simp
qed



section \<open>The threads of a run\<close>

text \<open>
  \<open>execute_task\<close> in two parts, as a worker thread that is preempted between them runs
  it: the part up to the last assignment to the status (lines 56-57, 62-65 and 68-70 of
  task.py), and the call of the callback that follows (lines 58-59, 66-67 with the
  handler, and 71-72). The first part ends with the callback slot still to be fired, or
  with an exception that \<open>except Exception\<close> lets through.
\<close>

datatype continuation = Callback hook_slot | Propagated py_exception

definition execute_task_body :: "task_ref \<Rightarrow> world \<Rightarrow> continuation \<times> world" where
  "execute_task_body t w =
     (if canceled_event (tasks w t) then (Callback OnCanceled, set_status t CANCELED w)
      else
        (let w1 = log_event (Execute_called t) (set_status t RUNNING w) in
         case execute (tasks w1 t) of
           Raises e \<Rightarrow>
             if isinstance_Exception e
             then (Callback OnFailed, set_status t FAILED (set_result t (PyExceptionObject e) w1))
             else (Propagated e, w1)
         | Returns v \<Rightarrow> (Callback OnCompleted, set_status t COMPLETED (set_result t v w1))))"

fun execute_task_callback :: "hook_slot \<Rightarrow> task_ref \<Rightarrow> world \<Rightarrow> unit outcome \<times> world" where
  "execute_task_callback OnCompleted t w =
     (case fire OnCompleted t w of
        (Raises e, w2) \<Rightarrow> except_Exception e t w2
      | (Returns u, w2) \<Rightarrow> (Returns (), w2))"
| "execute_task_callback OnFailed t w = fire OnFailed t w"
| "execute_task_callback OnCanceled t w = fire OnCanceled t w"

lemma execute_task_split:
  "execute_task t w =
     (case execute_task_body t w of
        (Callback slot, w1) \<Rightarrow> execute_task_callback slot t w1
      | (Propagated e, w1) \<Rightarrow> (Raises e, w1))"
  by (simp add: execute_task_def execute_task_body_def except_Exception_def Let_def
        split: outcome.splits)

text \<open>
  The threads of a run of \<open>Executor.run\<close>: the thread that called \<open>run\<close>, with its
  generator, and the worker threads of the pools. \<open>sys_taken\<close> counts the work items
  of each pool that workers have taken from its queue, and \<open>sys_running\<close> holds the
  work items that are between the two parts of \<open>execute_task\<close>.
\<close>

record system =
  sys_world :: world
  sys_executor :: executor
  sys_generator :: generator
  sys_dispatcher :: dispatcher
  sys_taken :: "string \<Rightarrow> nat"
  sys_running :: "(string \<times> task_ref \<times> hook_slot) list"

text \<open>
  One thread at a time takes a step:
  \<^item> \<open>Dispatch\<close>: the thread in \<open>run\<close> does a round of its loop;
  \<^item> \<open>Take tg\<close>: a worker of the pool of \<open>tg\<close>, which has one to spare, takes the next
    work item and runs the first part of \<open>execute_task\<close>;
  \<^item> \<open>Call_back i\<close>: the worker of the \<open>i\<close>-th running work item runs the second part.
    The callbacks of the scheduler notify inside \<open>with self.__condition\<close>, and the
    generator holds that lock from its first line to its end except while it waits, so
    the step is taken only when the generator is not suspended at a \<open>yield\<close>. A
    notification wakes a parked thread.
  A step that is not enabled gives \<open>None\<close>.
\<close>

datatype action = Dispatch | Take string | Call_back nat

definition lock_free :: "system \<Rightarrow> bool" where
  "lock_free s = (case sys_generator s of Suspended ts \<Rightarrow> False | _ \<Rightarrow> True)"

fun perform :: "action \<Rightarrow> system \<Rightarrow> system option" where
  "perform Dispatch s =
     (if sys_dispatcher s \<noteq> Iterating then None
      else
        (case run_round (sys_executor s) (sys_generator s) (sys_world s) of
           (d, ex, g, w) \<Rightarrow>
             Some (s\<lparr>sys_world := w, sys_executor := ex, sys_generator := g,
                     sys_dispatcher := d\<rparr>)))"
| "perform (Take tg) s =
     (case map_of (tag_to_thread_pool (sys_executor s)) tg of
        None \<Rightarrow> None
      | Some p \<Rightarrow>
          if sys_taken s tg < length (work_items p)
             \<and> int (length (filter (\<lambda>r. fst r = tg) (sys_running s))) < max_workers p
          then
            (let t = work_items p ! sys_taken s tg in
             case execute_task_body t (sys_world s) of
               (c, w) \<Rightarrow>
                 Some (s\<lparr>sys_world := w,
                         sys_taken := (sys_taken s)(tg := Suc (sys_taken s tg)),
                         sys_running := sys_running s @
                           (case c of Callback slot \<Rightarrow> [(tg, t, slot)] | Propagated e \<Rightarrow> [])\<rparr>))
          else None)"
| "perform (Call_back i) s =
     (if i < length (sys_running s) \<and> lock_free s then
        (case sys_running s ! i of
           (tg, t, slot) \<Rightarrow>
             (case execute_task_callback slot t (sys_world s) of
                (r, w) \<Rightarrow>
                  Some (s\<lparr>sys_world := w,
                          sys_running := take i (sys_running s) @ drop (Suc i) (sys_running s),
                          sys_dispatcher :=
                            (if sys_dispatcher s = Parked
                                \<and> Notify_all \<in> set (events_of (sys_world s) w)
                             then Iterating else sys_dispatcher s)\<rparr>)))
      else None)"

fun run_schedule :: "action list \<Rightarrow> system \<Rightarrow> system option" where
  "run_schedule [] s = Some s"
| "run_schedule (a # as) s =
     (case perform a s of None \<Rightarrow> None | Some s' \<Rightarrow> run_schedule as s')"

text \<open>
  Two tasks: the \<open>execute\<close> of A raises, and B depends on A. In \<open>race_schedule\<close> the
  worker of A is preempted after it has set FAILED and before it calls the failed
  callback, and the thread in \<open>run\<close> scans in between. In \<open>orderly_schedule\<close> every
  worker runs \<open>execute_task\<close> without interruption.
\<close>

definition race_tasks :: "task_ref \<Rightarrow> task" where
  "race_tasks =
     (\<lambda>_. Task_init [] (Returns PyNone) ''default'')
       (''A'' := Task_init [] (Raises (Exception ''Failed'')) ''default'',
        ''B'' := Task_init [''A''] (Returns (PyValue ''b'')) ''default'')"

definition race_system :: system where
  "race_system =
     \<lparr>sys_world = snd (Scheduler_init [''A'', ''B''] race_tasks),
      sys_executor = Executor_init 3, sys_generator = Created, sys_dispatcher = Iterating,
      sys_taken = (\<lambda>_. 0), sys_running = []\<rparr>"

definition race_schedule :: "action list" where
  "race_schedule =
     [Dispatch, Take ''default'', Dispatch, Take ''default'', Dispatch, Call_back 0, Call_back 0]"

definition statuses :: "system \<Rightarrow> task_ref list \<Rightarrow> TaskStatus list" where
  "statuses s ts = map (\<lambda>t. task_status (tasks (sys_world s) t)) ts"

lemmas eval_defs =
  race_system_def race_tasks_def Scheduler_init_def schedule_def Task_init_def
  register_on_task_completed_def register_on_task_failed_def register_on_task_canceled_def
  add_dependent_def dependents_of_def set_add_def Let_def Executor_init_def
  run_round_def has_cycles_def while_True_def has_pending_tasks_def collect_ready_def
  is_ready_def is_terminal_def mark_as_scheduled_def ensure_thread_pool_def
  ThreadPoolExecutor_def submit_def pool_submit_def shutdown_def pool_shutdown_def
  execute_task_body_def fire_def except_Exception_def lock_free_def
  scheduler_callback_defs events_of_def set_status_def set_result_def log_event_def
  update_task_def cancel_def statuses_def

definition orderly_schedule :: "action list" where
  "orderly_schedule =
     [Dispatch, Dispatch, Take ''default'', Call_back 0, Dispatch, Take ''default'', Dispatch,
      Call_back 0]"

definition outcome_of :: "system option \<Rightarrow> (TaskStatus list \<times> py_object \<times> bool \<times> dispatcher \<times> nat) option" where
  "outcome_of r =
     map_option (\<lambda>s. (statuses s [''A'', ''B''], task_result (tasks (sys_world s) ''B''),
                        canceled_event (tasks (sys_world s) ''B''), sys_dispatcher s,
                        length (sys_running s))) r"

text \<open>
  Claim C8 fails on a run with threads. In the schedule \<open>race_schedule\<close> the scan finds
  A FAILED, hence terminal, before the failed callback of A has set the cancel flag of B:
  B is yielded, a second worker finds the flag unset and completes B. At the end of the
  run A is FAILED, B is COMPLETED with its result, the flag of B is set (too late), and
  \<open>run\<close> has returned.
\<close>

theorem C8_race:
  "outcome_of (run_schedule race_schedule race_system)
     = Some ([FAILED, COMPLETED], PyValue ''b'', True, Left (Returns ()), 0)"
  by (simp add: race_schedule_def outcome_of_def eval_defs)

text \<open>The same tasks, with no preemption: B is CANCELED and has no result.\<close>

lemma orderly_run:
  "outcome_of (run_schedule orderly_schedule race_system)
     = Some ([FAILED, CANCELED], PyNone, True, Left (Returns ()), 0)"
  by (simp add: orderly_schedule_def outcome_of_def eval_defs)



section \<open>The steps of the workers and the tasks the generator holds\<close>

text \<open>
  A worker that runs \<open>execute_task\<close>, or a part of it, on a task that was yielded
  (SCHEDULED) changes the status of that task alone, and \<open>cancel\<close> changes no status:
  the tasks that a suspended generator still holds stay ready.
\<close>

lemma except_Exception_frame:
  "task_to_dependencies (snd (except_Exception e t w)) = task_to_dependencies w"
  "u \<noteq> t \<Longrightarrow> task_status (tasks (snd (except_Exception e t w)) u) = task_status (tasks w u)"
  by (simp_all add: except_Exception_def)

lemma execute_task_body_frame:
  "task_to_dependencies (snd (execute_task_body t w)) = task_to_dependencies w"
  "u \<noteq> t \<Longrightarrow> task_status (tasks (snd (execute_task_body t w)) u) = task_status (tasks w u)"
  by (simp_all add: execute_task_body_def Let_def split: outcome.splits)

lemma execute_task_callback_frame:
  "task_to_dependencies (snd (execute_task_callback slot t w)) = task_to_dependencies w"
  "u \<noteq> t \<Longrightarrow> task_status (tasks (snd (execute_task_callback slot t w)) u)
                 = task_status (tasks w u)"
proof -
  obtain r w2 where f: "fire OnCompleted t w = (r, w2)" by (cases "fire OnCompleted t w")
  have s2: "task_status (tasks w2 u) = task_status (tasks w u)"
    "task_to_dependencies w2 = task_to_dependencies w"
    using fire_fields(1)[of OnCompleted t w u] fire_fields(9)[of OnCompleted t w] f
    by simp_all
  show "task_to_dependencies (snd (execute_task_callback slot t w)) = task_to_dependencies w"
  proof (cases slot)
    case OnCompleted
    then show ?thesis by (cases r) (simp_all add: f except_Exception_frame s2)
  qed simp_all
  show "task_status (tasks (snd (execute_task_callback slot t w)) u) = task_status (tasks w u)"
    if "u \<noteq> t"
  proof (cases slot)
    case OnCompleted
    then show ?thesis using that by (cases r) (simp_all add: f except_Exception_frame s2)
  qed simp_all
qed

lemma execute_task_frame:
  "task_to_dependencies (snd (execute_task t w)) = task_to_dependencies w"
  "u \<noteq> t \<Longrightarrow> task_status (tasks (snd (execute_task t w)) u) = task_status (tasks w u)"
proof -
  obtain c w1 where b: "execute_task_body t w = (c, w1)" by (cases "execute_task_body t w")
  have s1: "task_to_dependencies w1 = task_to_dependencies w"
    using execute_task_body_frame(1)[of t w] b by simp
  have s1': "task_status (tasks w1 u) = task_status (tasks w u)" if "u \<noteq> t"
    using execute_task_body_frame(2)[OF that, of w] b by simp
  show "task_to_dependencies (snd (execute_task t w)) = task_to_dependencies w"
    by (cases c) (simp_all add: execute_task_split b execute_task_callback_frame s1)
  show "task_status (tasks (snd (execute_task t w)) u) = task_status (tasks w u)" if "u \<noteq> t"
    using that s1'
    by (cases c) (simp_all add: execute_task_split b execute_task_callback_frame)
qed

lemma collect_ready_other_task:
  assumes deps: "task_to_dependencies w' = task_to_dependencies w"
      and others: "\<And>v. v \<noteq> a \<Longrightarrow> task_status (tasks w' v) = task_status (tasks w v)"
      and a1: "task_status (tasks w a) \<noteq> PENDING"
      and a2: "\<not> is_terminal (task_status (tasks w a))"
      and u: "u \<in> set (collect_ready w)"
  shows "u \<in> set (collect_ready w')"
proof -
  from u obtain ds where ds1: "(u, ds) \<in> set (task_to_dependencies w)"
      and ds2: "task_status (tasks w u) = PENDING"
      and ds3: "\<forall>d\<in>set ds. is_terminal (task_status (tasks w d))"
    unfolding collect_ready_iff by blast
  have ua: "u \<noteq> a"
  proof
    assume "u = a"
    with ds2 a1 show False by simp
  qed
  have t': "\<forall>d\<in>set ds. is_terminal (task_status (tasks w' d))"
  proof
    fix d assume d: "d \<in> set ds"
    have "d \<noteq> a"
    proof
      assume "d = a"
      with d ds3 a2 show False by blast
    qed
    then have "task_status (tasks w' d) = task_status (tasks w d)" by (rule others)
    moreover from d ds3 have "is_terminal (task_status (tasks w d))" by blast
    ultimately show "is_terminal (task_status (tasks w' d))" by simp
  qed
  have m: "(u, ds) \<in> set (task_to_dependencies w')" using ds1 deps by simp
  have p: "task_status (tasks w' u) = PENDING"
    using others[OF ua] ds2 by simp
  from m p t' show ?thesis
    unfolding collect_ready_iff by blast
qed

lemma batch_ready_other_task:
  assumes "task_to_dependencies w' = task_to_dependencies w"
      and "\<And>u. u \<noteq> a \<Longrightarrow> task_status (tasks w' u) = task_status (tasks w u)"
      and "task_status (tasks w a) \<noteq> PENDING" "\<not> is_terminal (task_status (tasks w a))"
      and "batch_ready g w"
  shows "batch_ready g w'"
proof (cases g)
  case (Suspended ts)
  with assms(5) have d: "distinct ts" and sub: "set ts \<subseteq> set (collect_ready w)"
    by simp_all
  have "set ts \<subseteq> set (collect_ready w')"
  proof
    fix u assume "u \<in> set ts"
    with sub have uin: "u \<in> set (collect_ready w)" by blast
    show "u \<in> set (collect_ready w')"
      by (rule collect_ready_other_task[OF assms(1) assms(2) assms(3) assms(4) uin])
  qed
  with d Suspended show ?thesis by simp
qed simp_all

lemma batch_ready_execute_task:
  assumes "task_status (tasks w a) = SCHEDULED" "batch_ready g w"
  shows "batch_ready g (snd (execute_task a w))"
proof (rule batch_ready_other_task[where a = a and w = w])
  show "task_to_dependencies (snd (execute_task a w)) = task_to_dependencies w"
    by (rule execute_task_frame(1))
  show "task_status (tasks (snd (execute_task a w)) u) = task_status (tasks w u)" if "u \<noteq> a" for u
    using that by (rule execute_task_frame(2))
  show "task_status (tasks w a) \<noteq> PENDING" using assms(1) by simp
  show "\<not> is_terminal (task_status (tasks w a))" using assms(1) by (simp add: is_terminal_def)
  show "batch_ready g w" by (rule assms(2))
qed

lemma batch_ready_execute_task_body:
  assumes "task_status (tasks w a) = SCHEDULED" "batch_ready g w"
  shows "batch_ready g (snd (execute_task_body a w))"
proof (rule batch_ready_other_task[where a = a and w = w])
  show "task_to_dependencies (snd (execute_task_body a w)) = task_to_dependencies w"
    by (rule execute_task_body_frame(1))
  show "task_status (tasks (snd (execute_task_body a w)) u) = task_status (tasks w u)"
    if "u \<noteq> a" for u
    using that by (rule execute_task_body_frame(2))
  show "task_status (tasks w a) \<noteq> PENDING" using assms(1) by simp
  show "\<not> is_terminal (task_status (tasks w a))" using assms(1) by (simp add: is_terminal_def)
  show "batch_ready g w" by (rule assms(2))
qed

lemma batch_ready_cancel: "batch_ready g w \<Longrightarrow> batch_ready g (cancel t w)"
proof -
  have "is_ready (cancel t w) = is_ready w"
    by (rule ext) (auto simp: is_ready_def list_all_iff)
  then have "collect_ready (cancel t w) = collect_ready w"
    by (simp add: collect_ready_def)
  then show "batch_ready g w \<Longrightarrow> batch_ready g (cancel t w)"
    by (cases g) simp_all
qed


end
